theory Spec2Isabelle
  imports Main "HOL-Library.Sublist" "HOL-Library.Multiset" "HOL-Library.Word"
begin

section \<open>The thread pool of include/ThreadPool.h\<close>

text \<open>
  The pool is shared by one owner thread, which constructs it and calls \<open>addTask\<close>,
  \<open>waitUntilComplete\<close> and the destructor, and by the worker threads started by the
  constructor. Every thread is a small program counter into its source function; an
  \<open>event\<close> lets one thread execute its next statement, so a list of events is one
  interleaving of the threads. A thread scheduled while it is blocked (on the mutex, on
  the condition variable, in \<open>join\<close>) leaves the state as it is.
\<close>

subsection \<open>Tasks\<close>

text \<open>
  A task is a \<open>std::function<void()>\<close>. All the worker sees of it is how the call ends:
  it returns; or it throws an exception that the handler of line 211,
  \<open>catch (const std::exception& e)\<close>, matches (an object whose class is \<open>std::exception\<close>
  or has it as an accessible, unambiguous base), with its \<open>what()\<close> text; or it throws
  anything else (a value of another type, or of a class that has \<open>std::exception\<close> only as
  a private or ambiguous base), which that handler does not match.
\<close>

datatype behaviour = Returns | ThrowsStd string | ThrowsOther

datatype task = Task (ident: nat) (body: behaviour)

subsection \<open>Program counters\<close>

text \<open>
  Worker labels are the line numbers of \<open>ThreadPoolWorker::operator()\<close>. A worker inside
  \<open>cv_.wait\<close> is \<open>Waiting\<close>; once notified (or woken spuriously) it is \<open>Woken\<close> and has
  to take the mutex again before \<open>wait\<close> returns. \<open>L206 f\<close>, \<open>L209 f\<close> and \<open>L210 f\<close> hold
  \<open>currentTask = f\<close>; at \<open>L210 f\<close> the body of \<open>f\<close> is running.
\<close>

datatype wpc =
    L193 | L195 | L196 | L197 | Waiting | Woken | L200 | L204
  | L206 task | L209 task | L210 task
  | Exited | Joined

text \<open>
  Labels of \<open>addTask\<close> (lines 103 to 117) and of \<open>waitUntilComplete\<close>
  (129 to 169).
\<close>

datatype albl = A103 | A109 | A110 | A115 | A116 | A117

datatype ulbl =
    U129 | U134 | U136 | U138 | U139 | U141 | U145 | U146 | U148 | U151
  | U155 | U157 | U158 | U159 nat | U165 nat | U169

text \<open>
  The frame of \<open>waitUntilComplete\<close>: \<open>allowNewTasks\<close>, \<open>abandonTasks\<close>, \<open>terminatePool\<close>, and
  whether the call was made by the destructor.
\<close>

type_synonym frame = "bool \<times> bool \<times> bool \<times> bool"

datatype cpc = Idle | Destroyed | A albl task | U ulbl frame

datatype call = AddTask task | WaitUntilComplete bool bool bool | Destroy

datatype result = Returned | UsageFault

datatype owner = ByClient | ByWorker nat

datatype error = EmptyQueueFront nat | UncaughtException nat

subsection \<open>The pool\<close>

text \<open>
  The members of \<open>ThreadPool\<close>, the state of the threads, and four histories that the
  code does not keep: the tasks pushed at line 115, removed at lines 204-205,
  dropped at lines 139-140, and run at line 210, each in the order it happened.
  \<open>log\<close> is \<open>None\<close> for a null stream, otherwise the messages written so far.
  \<open>cres\<close> is the call the owner completed last, and how it ended. The members keep
  their names without the trailing underscore.
\<close>

record pool =
  log :: "string list option"
  workers :: "wpc list"
  working :: "bool list"
  tasks :: "task list"
  mt :: "owner option"
  allowNewTasks :: bool
  terminate :: bool
  cpc :: cpc
  cres :: "(call \<times> result) option"
  pushed :: "task list"
  popped :: "task list"
  discarded :: "task list"
  executed :: "task list"

subsection \<open>Construction (lines 85-93)\<close>

text \<open>
  The constructor can fail, and how it fails is decided by the machine it runs on. The model
  reads \<open>size_t\<close> as a 64-bit and \<open>unsigned int\<close> as a 32-bit unsigned integer, and takes
  from a \<open>host\<close> what the source leaves to the library and the system: \<open>max_size()\<close> of the
  two vectors, whether the allocator has storage for a given number of their elements, and
  how many threads the process can still start.
\<close>

record host =
  max_size_workers :: nat
  max_size_working :: nat
  storage_workers :: "nat \<Rightarrow> bool"
  storage_working :: "nat \<Rightarrow> bool"
  threads_left :: nat

text \<open>
  \<open>std::length_error\<close> and \<open>std::bad_alloc\<close> from a vector, \<open>std::system_error\<close> from the
  constructor of \<open>std::thread\<close>, and \<open>std::terminate\<close>.
\<close>

datatype failure = LengthError | BadAlloc | SystemError | StdTerminate

text \<open>
  \<open>reserve(n)\<close> on an empty vector without storage (lines 87 and 88): it throws
  \<open>std::length_error\<close> for \<open>n > max_size()\<close>, allocates for \<open>n > 0\<close>, which can throw
  \<open>std::bad_alloc\<close>, and does nothing for \<open>n = 0\<close>.
\<close>

definition reserve :: "nat \<Rightarrow> (nat \<Rightarrow> bool) \<Rightarrow> nat \<Rightarrow> failure option" where
  "reserve max_size storage n =
     (if max_size < n then Some LengthError
      else if 0 < n \<and> \<not> storage n then Some BadAlloc
      else None)"

text \<open>
  An exception that leaves the constructor destroys the members already built. If
  \<open>workers_\<close> then holds a thread, that thread is joinable and its destructor calls
  \<open>std::terminate\<close>; otherwise the exception reaches the caller.
\<close>

definition unwind :: "pool \<Rightarrow> failure \<Rightarrow> failure" where
  "unwind s e = (if workers s = [] then e else StdTerminate)"

text \<open>
  The loop of lines 89-92, with \<open>t\<close> the number of threads the host still lets the process
  start. The counter \<open>i\<close> is an \<open>unsigned int\<close>: it is converted to \<open>size_t\<close> for the
  comparison with \<open>nThreads\<close>, and \<open>i++\<close> wraps at \<open>2^32\<close>. A \<open>push_back\<close> within the reserved
  \<open>nThreads\<close> elements allocates nothing; beyond them the vector has to grow. The thread of
  line 91 is started before it is pushed, so a failure of that \<open>push_back\<close> destroys a
  joinable thread.
\<close>

fun ThreadPool_loop :: "host \<Rightarrow> 64 word \<Rightarrow> nat \<Rightarrow> 32 word \<Rightarrow> pool \<Rightarrow> failure + pool" where
  "ThreadPool_loop h nThreads 0 i s =
     (if ucast i < nThreads then
        (if unat nThreads \<le> length (working s)
            \<and> \<not> storage_working h (Suc (length (working s)))
         then Inl (unwind s BadAlloc)
         else Inl (unwind s SystemError))
      else Inr s)"
| "ThreadPool_loop h nThreads (Suc t) i s =
     (if ucast i < nThreads then
        (if unat nThreads \<le> length (working s)
            \<and> \<not> storage_working h (Suc (length (working s)))
         then Inl (unwind s BadAlloc)
         else if unat nThreads \<le> length (workers s)
            \<and> \<not> storage_workers h (Suc (length (workers s)))
         then Inl StdTerminate
         else ThreadPool_loop h nThreads t (i + 1)
                (s\<lparr>working := working s @ [False], workers := workers s @ [L193]\<rparr>))
      else Inr s)"

text \<open>
  The pool with \<open>n\<close> workers started and nothing else done: the members as lines 53-59 and
  86 initialise them, \<open>n\<close> flags pushed as false, \<open>n\<close> workers at the head of their loop, the
  owner idle. Every pool the constructor returns is one of these (lemma
  \<open>ThreadPool_returns\<close> below); what a worker does while the constructor is still running is
  the beginning of an interleaving on it.
\<close>

definition new_pool :: "nat \<Rightarrow> string list option \<Rightarrow> pool" where
  "new_pool n logStream =
     \<lparr>log = logStream, workers = replicate n L193, working = replicate n False, tasks = [],
      mt = None, allowNewTasks = True, terminate = False, cpc = Idle, cres = None,
      pushed = [], popped = [], discarded = [], executed = []\<rparr>"

definition ThreadPool :: "host \<Rightarrow> 64 word \<Rightarrow> string list option \<Rightarrow> failure + pool" where
  "ThreadPool h nThreads logStream =
     (case reserve (max_size_workers h) (storage_workers h) (unat nThreads) of
        Some e \<Rightarrow> Inl e
      | None \<Rightarrow>
         (case reserve (max_size_working h) (storage_working h) (unat nThreads) of
            Some e \<Rightarrow> Inl e
          | None \<Rightarrow> ThreadPool_loop h nThreads (threads_left h) 0 (new_pool 0 logStream)))"

text \<open>
  A host that refuses as little as a 64-bit system can: \<open>max_size()\<close> is \<open>PTRDIFF_MAX\<close>
  divided by the size of an element (8 bytes for a \<open>std::thread\<close>, 1 for a \<open>char\<close>), every
  allocation succeeds, and \<open>2^64\<close> threads can be started.
\<close>

definition generous :: host where
  "generous =
     \<lparr>max_size_workers = 2 ^ 60 - 1, max_size_working = 2 ^ 63 - 1,
      storage_workers = (\<lambda>n. True), storage_working = (\<lambda>n. True),
      threads_left = 2 ^ 64\<rparr>"

subsection \<open>Logging (lines 175-179)\<close>

definition logMessage :: "string \<Rightarrow> pool \<Rightarrow> pool" where
  "logMessage msg s =
     (case log s of None \<Rightarrow> s | Some out \<Rightarrow> s\<lparr>log := Some (out @ [msg])\<rparr>)"

definition stopped_msg :: string where
  "stopped_msg =
     ''ERROR in ThreadPool::addTask(F): Attempting to add task to a stopped thread pool.''"

text \<open>\<open>std::to_string\<close> of an unsigned number: its decimal digits.\<close>

function to_string :: "nat \<Rightarrow> string" where
  "to_string n =
     (if n < 10 then [char_of (48 + n)]
      else to_string (n div 10) @ [char_of (48 + n mod 10)])"
  by pat_completeness auto
termination
  by (relation "measure id") auto

definition task_msg :: "nat \<Rightarrow> string \<Rightarrow> string" where
  "task_msg i what =
     ''ERROR in ThreadPoolWorker['' @ to_string i @ ''] ''
     @ ''task. Original message is as follows:'' @ [CHR 0x0A, CHR 0x09]
     @ what @ [CHR 0x0A]
     @ ''Ignoring exception and continuing.'' @ [CHR 0x0A]"

subsection \<open>The worker loop (lines 188-219)\<close>

definition at_w :: "nat \<Rightarrow> wpc \<Rightarrow> pool \<Rightarrow> pool" where
  "at_w i l s = s\<lparr>workers := (workers s)[i := l]\<rparr>"

fun wstep :: "nat \<Rightarrow> wpc \<Rightarrow> pool \<Rightarrow> error + pool" where
  "wstep i L193 s =
     (if mt s = None then Inr (at_w i L195 (s\<lparr>mt := Some (ByWorker i)\<rparr>)) else Inr s)"
| "wstep i L195 s =
     (if tasks s = [] then Inr (at_w i L196 s) else Inr (at_w i L200 s))"
| "wstep i L196 s = Inr (at_w i L197 (s\<lparr>working := (working s)[i := False]\<rparr>))"
| "wstep i L197 s = Inr (at_w i Waiting (s\<lparr>mt := None\<rparr>))"
| "wstep i Waiting s = Inr s"
| "wstep i Woken s =
     (if mt s = None then Inr (at_w i L200 (s\<lparr>mt := Some (ByWorker i)\<rparr>)) else Inr s)"
| "wstep i L200 s =
     (if terminate s \<and> tasks s = [] then Inr (at_w i Exited (s\<lparr>mt := None\<rparr>))
      else Inr (at_w i L204 s))"
| "wstep i L204 s =
     (case tasks s of
        [] \<Rightarrow> Inl (EmptyQueueFront i)
      | f # fs \<Rightarrow> Inr (at_w i (L206 f) (s\<lparr>tasks := fs, popped := popped s @ [f]\<rparr>)))"
| "wstep i (L206 f) s = Inr (at_w i (L209 f) (s\<lparr>mt := None\<rparr>))"
| "wstep i (L209 f) s = Inr (at_w i (L210 f) (s\<lparr>working := (working s)[i := True]\<rparr>))"
| "wstep i (L210 f) s =
     (case body f of
        Returns \<Rightarrow> Inr (at_w i L193 (s\<lparr>executed := executed s @ [f]\<rparr>))
      | ThrowsStd what \<Rightarrow>
          Inr (at_w i L193 (logMessage (task_msg i what) (s\<lparr>executed := executed s @ [f]\<rparr>)))
      | ThrowsOther \<Rightarrow> Inl (UncaughtException i))"
| "wstep i Exited s = Inr s"
| "wstep i Joined s = Inr s"

subsection \<open>The owner's calls\<close>

definition call_of :: "frame \<Rightarrow> call" where
  "call_of fr = (case fr of (a, b, t, d) \<Rightarrow> if d then Destroy else WaitUntilComplete a b t)"

definition ret :: "call \<Rightarrow> pool \<Rightarrow> pool" where
  "ret c s = s\<lparr>cpc := (if c = Destroy then Destroyed else Idle), cres := Some (c, Returned)\<rparr>"

definition throw :: "call \<Rightarrow> pool \<Rightarrow> pool" where
  "throw c s = s\<lparr>cpc := Idle, cres := Some (c, UsageFault)\<rparr>"

text \<open>
  \<open>cv_.notify_one()\<close> wakes one waiting worker, if there is one; which one is the
  scheduler's choice \<open>k\<close>. \<open>cv_.notify_all()\<close> wakes every waiting worker.
\<close>

definition notify_one :: "nat \<Rightarrow> pool \<Rightarrow> pool option" where
  "notify_one k s =
     (if k < length (workers s) \<and> workers s ! k = Waiting then Some (at_w k Woken s)
      else if Waiting \<in> set (workers s) then None
      else Some s)"

definition notify_all :: "pool \<Rightarrow> pool" where
  "notify_all s = s\<lparr>workers := map (\<lambda>l. if l = Waiting then Woken else l) (workers s)\<rparr>"

text \<open>\<open>addTask\<close>, lines 102-118.\<close>

fun astep :: "nat \<Rightarrow> albl \<Rightarrow> task \<Rightarrow> pool \<Rightarrow> pool" where
  "astep k A103 f s =
     (if \<not> allowNewTasks s then ret (AddTask f) (logMessage stopped_msg s)
      else s\<lparr>cpc := A A109 f\<rparr>)"
| "astep k A109 f s =
     (if mt s = None then s\<lparr>mt := Some ByClient, cpc := A A110 f\<rparr> else s)"
| "astep k A110 f s =
     (if \<not> allowNewTasks s then ret (AddTask f) ((logMessage stopped_msg s)\<lparr>mt := None\<rparr>)
      else s\<lparr>cpc := A A115 f\<rparr>)"
| "astep k A115 f s =
     s\<lparr>tasks := tasks s @ [f], pushed := pushed s @ [f], cpc := A A116 f\<rparr>"
| "astep k A116 f s = s\<lparr>mt := None, cpc := A A117 f\<rparr>"
| "astep k A117 f s =
     (case notify_one k s of None \<Rightarrow> s | Some s' \<Rightarrow> ret (AddTask f) s')"

text \<open>\<open>waitUntilComplete\<close>, lines 126-171.\<close>

fun ustep :: "ulbl \<Rightarrow> frame \<Rightarrow> pool \<Rightarrow> pool" where
  "ustep U129 (a, b, t, d) s =
     (if a \<and> (b \<or> t) then throw (call_of (a, b, t, d)) s
      else s\<lparr>cpc := U U134 (a, b, t, d)\<rparr>)"
| "ustep U134 (a, b, t, d) s = s\<lparr>allowNewTasks := a, cpc := U U136 (a, b, t, d)\<rparr>"
| "ustep U136 (a, b, t, d) s =
     (if b then s\<lparr>cpc := U U138 (a, b, t, d)\<rparr> else s\<lparr>cpc := U U145 (a, b, t, d)\<rparr>)"
| "ustep U138 fr s =
     (if mt s = None then s\<lparr>mt := Some ByClient, cpc := U U139 fr\<rparr> else s)"
| "ustep U139 fr s =
     s\<lparr>tasks := [], discarded := discarded s @ tasks s, cpc := U U141 fr\<rparr>"
| "ustep U141 fr s = s\<lparr>mt := None, cpc := U U155 fr\<rparr>"
| "ustep U145 fr s =
     (if mt s = None then s\<lparr>mt := Some ByClient, cpc := U U146 fr\<rparr> else s)"
| "ustep U146 fr s =
     (if tasks s = [] then s\<lparr>cpc := U U148 fr\<rparr> else s\<lparr>cpc := U U151 fr\<rparr>)"
| "ustep U148 fr s = s\<lparr>allowNewTasks := False, mt := None, cpc := U U155 fr\<rparr>"
| "ustep U151 fr s = s\<lparr>mt := None, cpc := U U145 fr\<rparr>"
| "ustep U155 (a, b, t, d) s =
     (if t then s\<lparr>cpc := U U157 (a, b, t, d)\<rparr> else s\<lparr>cpc := U (U165 0) (a, b, t, d)\<rparr>)"
| "ustep U157 fr s = s\<lparr>terminate := True, cpc := U U158 fr\<rparr>"
| "ustep U158 fr s = (notify_all s)\<lparr>cpc := U (U159 0) fr\<rparr>"
| "ustep (U159 i) fr s =
     (if i < length (workers s) then
        (case workers s ! i of
           Joined \<Rightarrow> s\<lparr>cpc := U (U159 (Suc i)) fr\<rparr>
         | Exited \<Rightarrow> (at_w i Joined s)\<lparr>cpc := U (U159 (Suc i)) fr\<rparr>
         | _ \<Rightarrow> s)
      else ret (call_of fr) s)"
| "ustep (U165 i) fr s =
     (if i < length (working s) then
        (if working s ! i then s\<lparr>cpc := U (U165 0) fr\<rparr>
         else s\<lparr>cpc := U (U165 (Suc i)) fr\<rparr>)
      else s\<lparr>cpc := U U169 fr\<rparr>)"
| "ustep U169 fr s = ret (call_of fr) (s\<lparr>allowNewTasks := True\<rparr>)"

text \<open>The destructor, lines 96-98, is \<open>waitUntilComplete(false, true, true)\<close>.\<close>

definition enter :: "call \<Rightarrow> pool \<Rightarrow> pool" where
  "enter c s =
     (case c of
        AddTask f \<Rightarrow> s\<lparr>cpc := A A103 f\<rparr>
      | WaitUntilComplete a b t \<Rightarrow> s\<lparr>cpc := U U129 (a, b, t, False)\<rparr>
      | Destroy \<Rightarrow> s\<lparr>cpc := U U129 (False, True, True, True)\<rparr>)"

subsection \<open>Interleavings\<close>

datatype event = Call call | Client nat | Worker nat | Spurious nat

fun step :: "event \<Rightarrow> pool \<Rightarrow> error + pool" where
  "step (Call c) s = (if cpc s = Idle then Inr (enter c s) else Inr s)"
| "step (Client k) s =
     (case cpc s of
        A l f \<Rightarrow> Inr (astep k l f s)
      | U l fr \<Rightarrow> Inr (ustep l fr s)
      | _ \<Rightarrow> Inr s)"
| "step (Worker i) s =
     (if i < length (workers s) then wstep i (workers s ! i) s else Inr s)"
| "step (Spurious i) s =
     (if i < length (workers s) \<and> workers s ! i = Waiting then Inr (at_w i Woken s)
      else Inr s)"

fun run :: "event list \<Rightarrow> pool \<Rightarrow> error + pool" where
  "run [] s = Inr s"
| "run (e # es) s = (case step e s of Inl x \<Rightarrow> Inl x | Inr s' \<Rightarrow> run es s')"

subsection \<open>Re-arming\<close>




section \<open>Properties of the states an interleaving reaches\<close>

text \<open>The task a worker has taken from the queue and not finished.\<close>

fun held_of :: "wpc \<Rightarrow> task list" where
  "held_of (L206 f) = [f]"
| "held_of (L209 f) = [f]"
| "held_of (L210 f) = [f]"
| "held_of _ = []"

definition held :: "pool \<Rightarrow> task list" where
  "held s = concat (map held_of (workers s))"

definition shape :: "nat \<Rightarrow> pool \<Rightarrow> bool" where
  "shape n s \<longleftrightarrow> length (workers s) = n \<and> length (working s) = n"

definition fifo_inv :: "pool \<Rightarrow> bool" where
  "fifo_inv s \<longleftrightarrow>
     subseq (popped s @ tasks s) (pushed s)
     \<and> (discarded s = [] \<longrightarrow> pushed s = popped s @ tasks s)
     \<and> mset (pushed s) = mset (popped s) + mset (discarded s) + mset (tasks s)"

definition exec_inv :: "pool \<Rightarrow> bool" where
  "exec_inv s \<longleftrightarrow>
     mset (popped s) = mset (executed s) + mset (held s)
     \<and> (length (workers s) = 1 \<longrightarrow> popped s = executed s @ held_of (workers s ! 0))"

definition busy_inv :: "pool \<Rightarrow> bool" where
  "busy_inv s \<longleftrightarrow>
     length (working s) = length (workers s)
     \<and> (\<forall>i<length (workers s).
           (\<forall>f. workers s ! i = L210 f \<longrightarrow> working s ! i)
           \<and> (workers s ! i \<in> {L197, Waiting, Woken} \<longrightarrow> \<not> working s ! i))"

text \<open>
  What worker \<open>i\<close> does along a run: the tasks it takes from the queue at lines 204-205, and
  the tasks whose call at line 210 it ends (by return, or through the handler), each in
  order.
\<close>

fun took :: "nat \<Rightarrow> event list \<Rightarrow> pool \<Rightarrow> task list" where
  "took i [] s = []"
| "took i (e # es) s =
     (case step e s of
        Inl x \<Rightarrow> []
      | Inr s' \<Rightarrow>
          (if e = Worker i \<and> i < length (workers s) \<and> workers s ! i = L204
           then take 1 (tasks s) else [])
          @ took i es s')"

fun ran :: "nat \<Rightarrow> event list \<Rightarrow> pool \<Rightarrow> task list" where
  "ran i [] s = []"
| "ran i (e # es) s =
     (case step e s of
        Inl x \<Rightarrow> []
      | Inr s' \<Rightarrow>
          (if e = Worker i \<and> i < length (workers s)
           then (case workers s ! i of L210 f \<Rightarrow> [f] | _ \<Rightarrow> []) else [])
          @ ran i es s')"

text \<open>The steps a worker that holds a task still has to make until the task has been run.\<close>

fun remaining :: "wpc \<Rightarrow> nat" where
  "remaining (L206 f) = 3"
| "remaining (L209 f) = 2"
| "remaining (L210 f) = 1"
| "remaining l = 0"

fun spurious :: "event \<Rightarrow> bool" where
  "spurious (Spurious i) = True"
| "spurious e = False"

text \<open>The labels inside a critical section of \<open>mt_\<close>.\<close>

fun crit_w :: "wpc \<Rightarrow> bool" where
  "crit_w L195 = True"
| "crit_w L196 = True"
| "crit_w L197 = True"
| "crit_w L200 = True"
| "crit_w L204 = True"
| "crit_w (L206 f) = True"
| "crit_w l = False"

fun crit_c :: "cpc \<Rightarrow> bool" where
  "crit_c (A A110 f) = True"
| "crit_c (A A115 f) = True"
| "crit_c (A A116 f) = True"
| "crit_c (U U139 fr) = True"
| "crit_c (U U141 fr) = True"
| "crit_c (U U146 fr) = True"
| "crit_c (U U148 fr) = True"
| "crit_c (U U151 fr) = True"
| "crit_c c = False"

definition mutex_inv :: "pool \<Rightarrow> bool" where
  "mutex_inv s \<longleftrightarrow>
     (crit_c (cpc s) \<longleftrightarrow> mt s = Some ByClient)
     \<and> (\<forall>i<length (workers s). crit_w (workers s ! i) \<longleftrightarrow> mt s = Some (ByWorker i))
     \<and> (\<forall>i. mt s = Some (ByWorker i) \<longrightarrow> i < length (workers s))"

text \<open>A pool whose workers are all joined, with termination requested and intake closed.\<close>

definition retired :: "pool \<Rightarrow> bool" where
  "retired s \<longleftrightarrow>
     terminate s \<and> \<not> allowNewTasks s \<and> tasks s = []
     \<and> (\<forall>i<length (workers s). workers s ! i = Joined)"

text \<open>What holds while the owner is at a label of \<open>waitUntilComplete\<close>.\<close>

fun uinv :: "ulbl \<Rightarrow> bool \<Rightarrow> bool \<Rightarrow> bool \<Rightarrow> pool \<Rightarrow> bool" where
  "uinv U129 a b t s = True"
| "uinv U134 a b t s = (\<not> (a \<and> (b \<or> t)))"
| "uinv U141 a b t s = (tasks s = [] \<and> (t \<longrightarrow> \<not> allowNewTasks s))"
| "uinv U148 a b t s = (tasks s = [] \<and> (t \<longrightarrow> \<not> allowNewTasks s))"
| "uinv U155 a b t s = (tasks s = [] \<and> (t \<longrightarrow> \<not> allowNewTasks s))"
| "uinv U157 a b t s = (t \<and> tasks s = [] \<and> \<not> allowNewTasks s)"
| "uinv U158 a b t s = (t \<and> tasks s = [] \<and> \<not> allowNewTasks s \<and> terminate s)"
| "uinv (U159 i) a b t s =
     (t \<and> tasks s = [] \<and> \<not> allowNewTasks s \<and> terminate s
      \<and> (\<forall>j<i. j < length (workers s) \<longrightarrow> workers s ! j = Joined))"
| "uinv (U165 i) a b t s = (\<not> t)"
| "uinv U169 a b t s = (\<not> t)"
| "uinv l a b t s = (t \<longrightarrow> \<not> allowNewTasks s)"

definition owner_inv :: "pool \<Rightarrow> bool" where
  "owner_inv s \<longleftrightarrow>
     (case cpc s of
        Idle \<Rightarrow>
          (\<forall>a b. cres s = Some (WaitUntilComplete a b True, Returned) \<longrightarrow> retired s)
          \<and> (\<forall>a b. cres s = Some (WaitUntilComplete a b False, Returned) \<longrightarrow> allowNewTasks s)
      | Destroyed \<Rightarrow> retired s \<and> cres s = Some (Destroy, Returned)
      | A l f \<Rightarrow> True
      | U l (a, b, t, d) \<Rightarrow> (d \<longrightarrow> \<not> a \<and> b \<and> t) \<and> uinv l a b t s)"

text \<open>
  A call of \<open>waitUntilComplete\<close> that does not terminate the pool ends by opening the
  intake (line 169); \<open>reopening\<close> holds of the events that start one.
\<close>

fun reopening :: "event \<Rightarrow> bool" where
  "reopening (Call (WaitUntilComplete a b t)) = (\<not> t)"
| "reopening e = False"

text \<open>The labels the owner can be at in a retired pool that is not opened again.\<close>

fun closed_at :: "cpc \<Rightarrow> bool" where
  "closed_at (A l f) = (l = A103)"
| "closed_at (U (U165 i) fr) = False"
| "closed_at (U U169 fr) = False"
| "closed_at (U l (a, b, t, d)) = (t \<and> (l = U129 \<or> \<not> a))"
| "closed_at c = True"

definition closed_inv :: "pool \<Rightarrow> bool" where
  "closed_inv s \<longleftrightarrow> retired s \<and> closed_at (cpc s)"

subsection \<open>Schedules\<close>

text \<open>
  The seven events of an uncontended \<open>addTask(f)\<close>: the call and its six statements, the
  last of which notifies worker 0 if it waits.
\<close>

definition submit :: "task \<Rightarrow> event list" where
  "submit f = [Call (AddTask f), Client 0, Client 0, Client 0, Client 0, Client 0, Client 0]"

text \<open>Worker 0 alone, for a number of steps; the owner alone.\<close>

definition worker0 :: "nat \<Rightarrow> event list" where
  "worker0 k = replicate k (Worker 0)"

definition client :: "nat \<Rightarrow> event list" where
  "client k = replicate k (Client 0)"

text \<open>Five tasks submitted in order to a pool of one worker, which then runs for 35 steps.\<close>

definition five :: "event list" where
  "five = submit (Task 1 Returns) @ submit (Task 2 Returns) @ submit (Task 3 Returns)
     @ submit (Task 4 Returns) @ submit (Task 5 Returns) @ worker0 35"

text \<open>
  One task submitted to a pool of one worker: after six steps the worker is inside the task,
  after seven it is back at the head of its loop.
\<close>

definition one_running :: "event list" where
  "one_running = submit (Task 1 Returns) @ worker0 6"

definition one_done :: "event list" where
  "one_done = submit (Task 1 Returns) @ worker0 7"

text \<open>
  The worker waits; a task is submitted and the worker notified; before the worker has the
  mutex again the owner abandons the queue (lines 136-141). The worker then goes on from
  \<open>cv_.wait\<close>.
\<close>

definition abandon_race :: "event list" where
  "abandon_race =
     worker0 4 @ submit (Task 1 Returns)
     @ [Call (WaitUntilComplete False True False)] @ client 6 @ worker0 3"

text \<open>
  The worker waits; a task is submitted; the worker wakes, takes the task and leaves the
  critical section (lines 204-206), but has not yet reached line 209. The owner then calls
  \<open>waitUntilComplete(false, false, false)\<close> and runs it to its end.
\<close>

definition drain_race :: "event list" where
  "drain_race =
     worker0 4 @ submit (Task 1 Returns) @ worker0 4
     @ [Call (WaitUntilComplete False False False)] @ client 10"

text \<open>
  A task that throws a \<open>std::exception\<close> and a task that returns, submitted to a pool of one
  worker with a log stream. After six steps the worker is inside the first, in the state
  \<open>faulty_running\<close>; its next step takes it to \<open>faulty_caught\<close>.
\<close>

definition faulty_then_normal :: "event list" where
  "faulty_then_normal =
     submit (Task 1 (ThrowsStd ''boom'')) @ submit (Task 2 Returns) @ worker0 6"

definition faulty_running :: pool where
  "faulty_running =
     \<lparr>log = Some [], workers = [L210 (Task 1 (ThrowsStd ''boom''))],
      working = [True], tasks = [Task 2 Returns], mt = None,
      allowNewTasks = True, terminate = False, cpc = Idle,
      cres = Some (AddTask (Task 2 Returns), Returned),
      pushed = [Task 1 (ThrowsStd ''boom''), Task 2 Returns],
      popped = [Task 1 (ThrowsStd ''boom'')], discarded = [],
      executed = []\<rparr>"

definition faulty_caught :: pool where
  "faulty_caught =
     \<lparr>log = Some [task_msg 0 ''boom''], workers = [L193],
      working = [True], tasks = [Task 2 Returns], mt = None,
      allowNewTasks = True, terminate = False, cpc = Idle,
      cres = Some (AddTask (Task 2 Returns), Returned),
      pushed = [Task 1 (ThrowsStd ''boom''), Task 2 Returns],
      popped = [Task 1 (ThrowsStd ''boom'')], discarded = [],
      executed = [Task 1 (ThrowsStd ''boom'')]\<rparr>"

text \<open>
  A pool of one worker destroyed at once: the destructor runs up to \<open>cv_.notify_all()\<close>
  (line 158) before the worker, just started, has taken a step; the worker then goes from
  the head of its loop into \<open>cv_.wait\<close>. The state this ends in is \<open>hung\<close>.
\<close>

definition destroy_fresh :: "event list" where
  "destroy_fresh = [Call Destroy] @ client 9 @ worker0 4"

definition hung :: pool where
  "hung =
     \<lparr>log = None, workers = [Waiting], working = [False], tasks = [], mt = None,
      allowNewTasks = False, terminate = True,
      cpc = U (U159 0) (False, True, True, True), cres = None,
      pushed = [], popped = [], discarded = [], executed = []\<rparr>"

text \<open>
  The schedule \<open>abandon_race\<close> with the destructor in the place of
  \<open>waitUntilComplete(false, true, false)\<close>: the destructor has emptied the queue
  (lines 138-140) and not yet set \<open>terminate_\<close> (line 157) when the notified worker goes on.
\<close>

definition destroy_race :: "event list" where
  "destroy_race =
     worker0 4 @ submit (Task 1 Returns) @ [Call Destroy] @ client 6 @ worker0 3"

text \<open>
  The worker waits, a task is submitted, and the owner destroys the pool before the worker has
  the mutex again.
\<close>

definition destroy_pending :: "event list" where
  "destroy_pending =
     worker0 4 @ submit (Task 1 Returns) @ [Call Destroy] @ client 9 @ worker0 2 @ client 3"

text \<open>
  The worker waits; the owner calls \<open>waitUntilComplete(false, false, true)\<close>; the
  worker wakes, leaves its loop and is joined.
\<close>

definition terminate_idle :: "event list" where
  "terminate_idle =
     worker0 4 @ [Call (WaitUntilComplete False False True)] @ client 9 @ worker0 2 @ client 3"

section \<open>Basic facts\<close>

subsection \<open>The constructor\<close>

lemma ucast_less: "((ucast (i :: 32 word) :: 64 word) < n) = (unat i < unat n)"
proof -
  have "unat i < 2 ^ 32" using unsigned_less [of i, where ?'a = nat] by simp
  then have "unat i < (2 :: nat) ^ 64" by simp
  then have "unat (ucast i :: 64 word) = unat i"
    by (simp add: unsigned_ucast_eq take_bit_nat_eq_self)
  then show ?thesis by (simp add: word_less_nat_alt)
qed

lemma unat_succ: "unat (i :: 32 word) < 2 ^ 32 - 1 \<Longrightarrow> unat (i + 1) = Suc (unat i)"
  using unat_add_lem [of i 1] by simp

text \<open>
  With the counter at \<open>i\<close>, \<open>i\<close> flags and \<open>i\<close> workers in place, a count within the counter's
  range and enough threads left, the loop completes the pool.
\<close>

lemma ThreadPool_loop_completes:
  assumes "length (workers s) = unat i" and "length (working s) = unat i"
    and "unat n < 2 ^ 32" and "unat i \<le> unat n" and "unat n - unat i \<le> t"
  shows "ThreadPool_loop h n t i s =
           Inr (s\<lparr>working := working s @ replicate (unat n - unat i) False,
                  workers := workers s @ replicate (unat n - unat i) L193\<rparr>)"
  using assms
proof (induction t arbitrary: i s)
  case 0
  then show ?case by (simp add: ucast_less)
next
  case (Suc t)
  show ?case
  proof (cases "unat i < unat n")
    case False
    with Suc.prems show ?thesis by (simp add: ucast_less)
  next
    case True
    with Suc.prems have u: "unat (i + 1) = Suc (unat i)" by (intro unat_succ) simp
    from True have d: "unat n - unat i = Suc (unat n - Suc (unat i))" by simp
    let ?s = "s\<lparr>working := working s @ [False], workers := workers s @ [L193]\<rparr>"
    have "ThreadPool_loop h n t (i + 1) ?s =
        Inr (?s\<lparr>working := working ?s @ replicate (unat n - unat (i + 1)) False,
                 workers := workers ?s @ replicate (unat n - unat (i + 1)) L193\<rparr>)"
      using Suc.prems True u by (intro Suc.IH) simp_all
    with True Suc.prems u d show ?thesis
      by (simp add: ucast_less replicate_app_Cons_same)
  qed
qed

text \<open>When the loop returns a pool, it is the completed one.\<close>

lemma ThreadPool_loop_returns:
  assumes "ThreadPool_loop h n t i s = Inr p"
    and "length (workers s) = unat i" and "length (working s) = unat i"
    and "unat n < 2 ^ 32" and "unat i \<le> unat n"
  shows "p = s\<lparr>working := working s @ replicate (unat n - unat i) False,
               workers := workers s @ replicate (unat n - unat i) L193\<rparr>"
  using assms
proof (induction t arbitrary: i s)
  case 0
  then show ?case by (simp add: ucast_less split: if_splits)
next
  case (Suc t)
  show ?case
  proof (cases "unat i < unat n")
    case False
    with Suc.prems show ?thesis by (simp add: ucast_less)
  next
    case True
    with Suc.prems have u: "unat (i + 1) = Suc (unat i)" by (intro unat_succ) simp
    from True have d: "unat n - unat i = Suc (unat n - Suc (unat i))" by simp
    let ?s = "s\<lparr>working := working s @ [False], workers := workers s @ [L193]\<rparr>"
    from Suc.prems(1) True have r: "ThreadPool_loop h n t (i + 1) ?s = Inr p"
      by (simp add: ucast_less split: if_splits)
    have "p = ?s\<lparr>working := working ?s @ replicate (unat n - unat (i + 1)) False,
                 workers := workers ?s @ replicate (unat n - unat (i + 1)) L193\<rparr>"
      using Suc.prems True u by (intro Suc.IH [OF r]) simp_all
    with u d show ?thesis by (simp add: replicate_app_Cons_same)
  qed
qed

text \<open>
  For a count beyond the counter's range the comparison of line 89 never fails, and the loop
  runs until the host refuses something.
\<close>

lemma ThreadPool_loop_wraps:
  assumes "2 ^ 32 \<le> unat n"
  shows "\<exists>e. ThreadPool_loop h n t i s = Inl e"
proof -
  have c: "ucast j < n" for j :: "32 word"
    using assms unsigned_less [of j, where ?'a = nat] by (simp add: ucast_less)
  show ?thesis
    by (induction t arbitrary: i s) (simp_all add: c)
qed

lemma ThreadPool_returns:
  assumes "ThreadPool h n lg = Inr p"
  shows "p = new_pool (unat n) lg \<and> unat n < 2 ^ 32"
proof -
  from assms have l: "ThreadPool_loop h n (threads_left h) 0 (new_pool 0 lg) = Inr p"
    by (simp add: ThreadPool_def split: option.splits)
  have n: "unat n < 2 ^ 32"
  proof (rule ccontr)
    assume "\<not> unat n < 2 ^ 32"
    then have "2 ^ 32 \<le> unat n" by simp
    from ThreadPool_loop_wraps [OF this, of h "threads_left h" 0 "new_pool 0 lg"] l
    show False by simp
  qed
  from ThreadPool_loop_returns [OF l _ _ n] have "p = new_pool (unat n) lg"
    by (simp add: new_pool_def)
  with n show ?thesis by simp
qed

lemma logMessage_simps [simp]:
  "workers (logMessage m s) = workers s" "working (logMessage m s) = working s"
  "tasks (logMessage m s) = tasks s" "mt (logMessage m s) = mt s"
  "allowNewTasks (logMessage m s) = allowNewTasks s" "terminate (logMessage m s) = terminate s"
  "cpc (logMessage m s) = cpc s" "cres (logMessage m s) = cres s"
  "pushed (logMessage m s) = pushed s" "popped (logMessage m s) = popped s"
  "discarded (logMessage m s) = discarded s" "executed (logMessage m s) = executed s"
  by (simp_all add: logMessage_def split: option.splits)

lemma run_append:
  "run (es @ es') s = (case run es s of Inl x \<Rightarrow> Inl x | Inr s' \<Rightarrow> run es' s')"
  by (induction es arbitrary: s) (auto split: sum.splits)

lemma at_w_simps [simp]:
  "workers (at_w i l s) = (workers s)[i := l]" "working (at_w i l s) = working s"
  "tasks (at_w i l s) = tasks s" "mt (at_w i l s) = mt s" "log (at_w i l s) = log s"
  "allowNewTasks (at_w i l s) = allowNewTasks s" "terminate (at_w i l s) = terminate s"
  "cpc (at_w i l s) = cpc s" "cres (at_w i l s) = cres s"
  "pushed (at_w i l s) = pushed s" "popped (at_w i l s) = popped s"
  "discarded (at_w i l s) = discarded s" "executed (at_w i l s) = executed s"
  by (simp_all add: at_w_def)

lemma ret_simps [simp]:
  "workers (ret c s) = workers s" "working (ret c s) = working s"
  "tasks (ret c s) = tasks s" "mt (ret c s) = mt s" "log (ret c s) = log s"
  "allowNewTasks (ret c s) = allowNewTasks s" "terminate (ret c s) = terminate s"
  "cpc (ret c s) = (if c = Destroy then Destroyed else Idle)" "cres (ret c s) = Some (c, Returned)"
  "pushed (ret c s) = pushed s" "popped (ret c s) = popped s"
  "discarded (ret c s) = discarded s" "executed (ret c s) = executed s"
  by (simp_all add: ret_def)

lemma throw_simps [simp]:
  "workers (throw c s) = workers s" "working (throw c s) = working s"
  "tasks (throw c s) = tasks s" "mt (throw c s) = mt s" "log (throw c s) = log s"
  "allowNewTasks (throw c s) = allowNewTasks s" "terminate (throw c s) = terminate s"
  "cpc (throw c s) = Idle" "cres (throw c s) = Some (c, UsageFault)"
  "pushed (throw c s) = pushed s" "popped (throw c s) = popped s"
  "discarded (throw c s) = discarded s" "executed (throw c s) = executed s"
  by (simp_all add: throw_def)

lemma notify_all_simps [simp]:
  "workers (notify_all s) = map (\<lambda>l. if l = Waiting then Woken else l) (workers s)"
  "working (notify_all s) = working s"
  "tasks (notify_all s) = tasks s" "mt (notify_all s) = mt s" "log (notify_all s) = log s"
  "allowNewTasks (notify_all s) = allowNewTasks s" "terminate (notify_all s) = terminate s"
  "cpc (notify_all s) = cpc s" "cres (notify_all s) = cres s"
  "pushed (notify_all s) = pushed s" "popped (notify_all s) = popped s"
  "discarded (notify_all s) = discarded s" "executed (notify_all s) = executed s"
  by (simp_all add: notify_all_def)

lemma enter_simps [simp]:
  "workers (enter c s) = workers s" "working (enter c s) = working s"
  "tasks (enter c s) = tasks s" "mt (enter c s) = mt s" "log (enter c s) = log s"
  "allowNewTasks (enter c s) = allowNewTasks s" "terminate (enter c s) = terminate s"
  "cres (enter c s) = cres s"
  "pushed (enter c s) = pushed s" "popped (enter c s) = popped s"
  "discarded (enter c s) = discarded s" "executed (enter c s) = executed s"
  by (simp_all add: enter_def split: call.splits)

lemma notify_one_cases:
  assumes "notify_one k s = Some s'"
  shows "s' = s \<or> (k < length (workers s) \<and> workers s ! k = Waiting \<and> s' = at_w k Woken s)"
  using assms by (auto simp: notify_one_def split: if_splits)

text \<open>A property of the initial pool that every step keeps holds after every interleaving.\<close>

lemma run_invariant:
  assumes "run es s0 = Inr s" and "P s0"
    and "\<And>e s s'. P s \<Longrightarrow> step e s = Inr s' \<Longrightarrow> P s'"
  shows "P s"
  using assms(1,2)
proof (induction es arbitrary: s0)
  case Nil
  then show ?case by simp
next
  case (Cons e es)
  then show ?case by (auto split: sum.splits intro: assms(3))
qed

text \<open>The ways a step can change the pool, one per kind of thread action.\<close>

lemma step_cases [consumes 1, case_names stutter call add wait worker spurious]:
  assumes "step e s = Inr s'"
    and "s' = s \<Longrightarrow> R"
    and "\<And>c. cpc s = Idle \<Longrightarrow> s' = enter c s \<Longrightarrow> R"
    and "\<And>k l f. cpc s = A l f \<Longrightarrow> s' = astep k l f s \<Longrightarrow> R"
    and "\<And>l fr. cpc s = U l fr \<Longrightarrow> s' = ustep l fr s \<Longrightarrow> R"
    and "\<And>i. i < length (workers s) \<Longrightarrow> wstep i (workers s ! i) s = Inr s' \<Longrightarrow> R"
    and "\<And>i. i < length (workers s) \<Longrightarrow> workers s ! i = Waiting \<Longrightarrow> s' = at_w i Woken s \<Longrightarrow> R"
  shows R
proof (cases e)
  case (Call c)
  with assms(1) have "s' = s \<or> (cpc s = Idle \<and> s' = enter c s)"
    by (simp split: if_splits)
  with assms(2,3) show ?thesis by blast
next
  case (Client k)
  with assms(1) have "s' = s \<or> (\<exists>l f. cpc s = A l f \<and> s' = astep k l f s)
      \<or> (\<exists>l fr. cpc s = U l fr \<and> s' = ustep l fr s)"
    by (cases "cpc s") simp_all
  with assms(2,4,5) show ?thesis by blast
next
  case (Worker i)
  with assms(1) have "s' = s \<or> (i < length (workers s) \<and> wstep i (workers s ! i) s = Inr s')"
    by (simp split: if_splits)
  with assms(2,6) show ?thesis by blast
next
  case (Spurious i)
  with assms(1) have
    "s' = s \<or> (i < length (workers s) \<and> workers s ! i = Waiting \<and> s' = at_w i Woken s)"
    by (simp split: if_splits)
  with assms(2,7) show ?thesis by blast
qed

subsection \<open>Every step keeps the properties\<close>

lemma shape_step: "step e s = Inr s' \<Longrightarrow> shape n s \<Longrightarrow> shape n s'"
proof (induction rule: step_cases)
  case stutter then show ?case by simp
next
  case (call c) then show ?case by (simp add: shape_def)
next
  case (add k l f) then show ?case
    by (cases l) (auto simp: shape_def dest!: notify_one_cases split: option.splits if_splits)
next
  case (wait l fr) then show ?case
    by (cases l; cases fr) (auto simp: shape_def split: wpc.splits)
next
  case (worker i) then show ?case
    by (cases "workers s ! i") (auto simp: shape_def split: if_splits list.splits behaviour.splits)
next
  case (spurious i) then show ?case by (simp add: shape_def)
qed

lemma subseq_snoc: "subseq (p @ t) q \<Longrightarrow> subseq (p @ t @ [f]) (q @ [f])"
  using subseq_append [of "p @ t" "[f]" q] by simp

lemma subseq_front: "subseq (p @ t) q \<Longrightarrow> subseq p q"
proof -
  assume "subseq (p @ t) q"
  moreover have "subseq p (p @ t)" by (simp add: prefix_imp_subseq)
  ultimately show ?thesis by (rule subseq_order.trans [rotated])
qed

lemma fifo_step: "step e s = Inr s' \<Longrightarrow> fifo_inv s \<Longrightarrow> fifo_inv s'"
proof (induction rule: step_cases)
  case stutter then show ?case by simp
next
  case (call c) then show ?case by (simp add: fifo_inv_def)
next
  case (add k l f) then show ?case
    by (cases l) (auto simp: fifo_inv_def subseq_snoc dest!: notify_one_cases split: option.splits if_splits)
next
  case (wait l fr) then show ?case
    by (cases l; cases fr) (auto simp: fifo_inv_def split: wpc.splits dest: subseq_front)
next
  case (worker i) then show ?case
    by (cases "workers s ! i") (auto simp: fifo_inv_def split: if_splits list.splits behaviour.splits)
next
  case (spurious i) then show ?case by (simp add: fifo_inv_def)
qed

lemma busy_step: "step e s = Inr s' \<Longrightarrow> busy_inv s \<Longrightarrow> busy_inv s'"
proof (induction rule: step_cases)
  case stutter then show ?case by simp
next
  case (call c) then show ?case by (simp add: busy_inv_def)
next
  case (add k l f) then show ?case
    by (cases l) (auto simp: busy_inv_def nth_list_update dest!: notify_one_cases split: option.splits if_splits)
next
  case (wait l fr) then show ?case
    by (cases l; cases fr) (auto simp: busy_inv_def nth_list_update split: wpc.splits)
next
  case (worker i) then show ?case
    by (cases "workers s ! i") (auto simp: busy_inv_def nth_list_update split: if_splits list.splits behaviour.splits)
next
  case (spurious i) then show ?case by (auto simp: busy_inv_def nth_list_update)
qed

lemma wstep_cases [consumes 2, case_names L193 L195e L195n L196 L197 Woken L200x L200 L204 L206 L209 L210r L210t same]:
  assumes "i < length (workers s)" "wstep i (workers s ! i) s = Inr s'"
    and "workers s ! i = L193 \<Longrightarrow> mt s = None \<Longrightarrow> s' = at_w i L195 (s\<lparr>mt := Some (ByWorker i)\<rparr>) \<Longrightarrow> R"
    and "workers s ! i = L195 \<Longrightarrow> tasks s = [] \<Longrightarrow> s' = at_w i L196 s \<Longrightarrow> R"
    and "workers s ! i = L195 \<Longrightarrow> tasks s \<noteq> [] \<Longrightarrow> s' = at_w i L200 s \<Longrightarrow> R"
    and "workers s ! i = L196 \<Longrightarrow> s' = at_w i L197 (s\<lparr>working := (working s)[i := False]\<rparr>) \<Longrightarrow> R"
    and "workers s ! i = L197 \<Longrightarrow> s' = at_w i Waiting (s\<lparr>mt := None\<rparr>) \<Longrightarrow> R"
    and "workers s ! i = Woken \<Longrightarrow> mt s = None \<Longrightarrow> s' = at_w i L200 (s\<lparr>mt := Some (ByWorker i)\<rparr>) \<Longrightarrow> R"
    and "workers s ! i = L200 \<Longrightarrow> terminate s \<Longrightarrow> tasks s = [] \<Longrightarrow> s' = at_w i Exited (s\<lparr>mt := None\<rparr>) \<Longrightarrow> R"
    and "workers s ! i = L200 \<Longrightarrow> \<not> (terminate s \<and> tasks s = []) \<Longrightarrow> s' = at_w i L204 s \<Longrightarrow> R"
    and "\<And>f fs. workers s ! i = L204 \<Longrightarrow> tasks s = f # fs \<Longrightarrow>
           s' = at_w i (L206 f) (s\<lparr>tasks := fs, popped := popped s @ [f]\<rparr>) \<Longrightarrow> R"
    and "\<And>f. workers s ! i = L206 f \<Longrightarrow> s' = at_w i (L209 f) (s\<lparr>mt := None\<rparr>) \<Longrightarrow> R"
    and "\<And>f. workers s ! i = L209 f \<Longrightarrow> s' = at_w i (L210 f) (s\<lparr>working := (working s)[i := True]\<rparr>) \<Longrightarrow> R"
    and "\<And>f. workers s ! i = L210 f \<Longrightarrow> body f = Returns \<Longrightarrow>
           s' = at_w i L193 (s\<lparr>executed := executed s @ [f]\<rparr>) \<Longrightarrow> R"
    and "\<And>f what. workers s ! i = L210 f \<Longrightarrow> body f = ThrowsStd what \<Longrightarrow>
           s' = at_w i L193 (logMessage (task_msg i what) (s\<lparr>executed := executed s @ [f]\<rparr>)) \<Longrightarrow> R"
    and "s' = s \<Longrightarrow> R"
  shows R
proof (cases "workers s ! i")
  case L193 with assms(2) have "s' = s \<or> (mt s = None \<and> s' = at_w i L195 (s\<lparr>mt := Some (ByWorker i)\<rparr>))"
    by (simp split: if_splits)
  with L193 assms(3,16) show ?thesis by metis
next
  case L195 with assms(2) have "(tasks s = [] \<and> s' = at_w i L196 s) \<or> (tasks s \<noteq> [] \<and> s' = at_w i L200 s)"
    by (simp split: if_splits)
  with L195 assms(4,5) show ?thesis by metis
next
  case L196 with assms(2,6) show ?thesis by simp
next
  case L197 with assms(2,7) show ?thesis by simp
next
  case Waiting with assms(2,16) show ?thesis by simp
next
  case Woken with assms(2) have "s' = s \<or> (mt s = None \<and> s' = at_w i L200 (s\<lparr>mt := Some (ByWorker i)\<rparr>))"
    by (simp split: if_splits)
  with Woken assms(8,16) show ?thesis by metis
next
  case L200 with assms(2) have "(terminate s \<and> tasks s = [] \<and> s' = at_w i Exited (s\<lparr>mt := None\<rparr>))
      \<or> (\<not> (terminate s \<and> tasks s = []) \<and> s' = at_w i L204 s)"
    by (simp split: if_splits)
  with L200 assms(9,10) show ?thesis by metis
next
  case L204 with assms(2) have "\<exists>f fs. tasks s = f # fs \<and> s' = at_w i (L206 f) (s\<lparr>tasks := fs, popped := popped s @ [f]\<rparr>)"
    by (simp split: list.splits)
  with L204 assms(11) show ?thesis by metis
next
  case (L206 f) with assms(2,12) show ?thesis by simp
next
  case (L209 f) with assms(2,13) show ?thesis by simp
next
  case (L210 f) with assms(2) have "(body f = Returns \<and> s' = at_w i L193 (s\<lparr>executed := executed s @ [f]\<rparr>))
     \<or> (\<exists>what. body f = ThrowsStd what \<and> s' = at_w i L193 (logMessage (task_msg i what) (s\<lparr>executed := executed s @ [f]\<rparr>)))"
    by (simp split: behaviour.splits)
  with L210 assms(14,15) show ?thesis by metis
next
  case Exited with assms(2,16) show ?thesis by simp
next
  case Joined with assms(2,16) show ?thesis by simp
qed

lemma mset_held_update:
  "i < length ws \<Longrightarrow>
     mset (concat (map held_of (ws[i := l]))) + mset (held_of (ws ! i)) =
     mset (concat (map held_of ws)) + mset (held_of l)"
proof (induction ws arbitrary: i)
  case Nil then show ?case by simp
next
  case (Cons w ws) then show ?case by (cases i) (simp_all add: ac_simps)
qed

lemma held_same [simp]:
  assumes "i < length ws" and "held_of (ws ! i) = held_of l"
  shows "concat (map held_of (ws[i := l])) = concat (map held_of ws)"
proof -
  have "(map held_of ws)[i := held_of (ws ! i)] = map held_of ws"
    using assms(1) list_update_id [of "map held_of ws" i] by simp
  with assms(2) show ?thesis by (simp add: map_update)
qed

lemma held_of_notify [simp]: "held_of \<circ> (\<lambda>l. if l = Waiting then Woken else l) = held_of"
  by (rule ext) simp

lemma exec_step: "step e s = Inr s' \<Longrightarrow> exec_inv s \<Longrightarrow> exec_inv s'"
proof (induction rule: step_cases)
  case stutter then show ?case by simp
next
  case (call c) then show ?case by (simp add: exec_inv_def held_def)
next
  case (add k l f) then show ?case
    by (cases l) (auto simp: exec_inv_def held_def dest!: notify_one_cases split: option.splits if_splits)
next
  case (wait l fr) then show ?case
    by (cases l; cases fr) (auto simp: exec_inv_def held_def split: wpc.splits)
next
  case (worker i)
  note upd = mset_held_update [OF worker(1)]
  note inv = worker(3)
  from worker(1,2) show ?case
  proof (cases rule: wstep_cases)
    case (L204 f fs)
    with upd [of "L206 f"] worker(1) inv show ?thesis
      by (auto simp: exec_inv_def held_def)
  next
    case (L210r f)
    with upd [of L193] worker(1) inv show ?thesis
      by (auto simp: exec_inv_def held_def)
  next
    case (L210t f what)
    with upd [of L193] worker(1) inv show ?thesis
      by (auto simp: exec_inv_def held_def)
  qed (use worker(1) inv in \<open>auto simp: exec_inv_def held_def\<close>)
next
  case (spurious i) then show ?case by (auto simp: exec_inv_def held_def)
qed

text \<open>
  Mutual exclusion: a thread is inside a critical section exactly when it holds the mutex,
  so at most one thread is.
\<close>

lemma mutex_step: "step e s = Inr s' \<Longrightarrow> mutex_inv s \<Longrightarrow> mutex_inv s'"
proof (induction rule: step_cases)
  case stutter then show ?case by simp
next
  case (call c) then show ?case by (cases c) (auto simp: mutex_inv_def enter_def)
next
  case (add k l f) then show ?case
    by (cases l)
      (fastforce simp: mutex_inv_def nth_list_update ret_def dest!: notify_one_cases
         split: option.splits if_splits)+
next
  case (wait l fr)
  obtain a b t d where fr: "fr = (a, b, t, d)" by (cases fr)
  with wait show ?case
    by (cases l)
      (auto simp: mutex_inv_def nth_list_update ret_def throw_def call_of_def split: wpc.splits)
next
  case (worker i)
  note inv = worker(3)
  from worker(1,2) show ?case
    by (cases rule: wstep_cases) (use worker(1) inv in \<open>auto simp: mutex_inv_def nth_list_update\<close>)
next
  case (spurious i) then show ?case by (auto simp: mutex_inv_def nth_list_update)
qed

lemma uinv_mono:
  assumes "uinv l a b t s"
    and "terminate s' = terminate s" "allowNewTasks s' = allowNewTasks s"
    and "tasks s = [] \<Longrightarrow> tasks s' = []"
    and "length (workers s') = length (workers s)"
    and "\<And>j. j < length (workers s) \<Longrightarrow> workers s ! j = Joined \<Longrightarrow> workers s' ! j = Joined"
  shows "uinv l a b t s'"
  using assms by (cases l) auto

lemma retired_mono:
  assumes "retired s"
    and "terminate s' = terminate s" "allowNewTasks s' = allowNewTasks s"
    and "tasks s = [] \<Longrightarrow> tasks s' = []"
    and "length (workers s') = length (workers s)"
    and "\<And>j. j < length (workers s) \<Longrightarrow> workers s ! j = Joined \<Longrightarrow> workers s' ! j = Joined"
  shows "retired s'"
  using assms by (auto simp: retired_def)

lemma worker_frame:
  assumes "i < length (workers s)" "wstep i (workers s ! i) s = Inr s'"
  shows "cpc s' = cpc s \<and> cres s' = cres s \<and> terminate s' = terminate s
     \<and> allowNewTasks s' = allowNewTasks s \<and> (tasks s = [] \<longrightarrow> tasks s' = [])
     \<and> length (workers s') = length (workers s)
     \<and> (\<forall>j<length (workers s). workers s ! j = Joined \<longrightarrow> workers s' ! j = Joined)
     \<and> pushed s' = pushed s"
  using assms by (cases rule: wstep_cases) (use assms(1) in \<open>auto simp: nth_list_update\<close>)

lemma owner_inv_Idle: "cpc s = Idle \<Longrightarrow>
  owner_inv s =
    ((\<forall>a b. cres s = Some (WaitUntilComplete a b True, Returned) \<longrightarrow> retired s)
     \<and> (\<forall>a b. cres s = Some (WaitUntilComplete a b False, Returned) \<longrightarrow> allowNewTasks s))"
  by (simp add: owner_inv_def)

lemma owner_inv_Destroyed: "cpc s = Destroyed \<Longrightarrow>
  owner_inv s = (retired s \<and> cres s = Some (Destroy, Returned))"
  by (simp add: owner_inv_def)

lemma owner_inv_A: "cpc s = A l f \<Longrightarrow> owner_inv s"
  by (simp add: owner_inv_def)

lemma owner_inv_U: "cpc s = U l (a, b, t, d) \<Longrightarrow>
  owner_inv s = ((d \<longrightarrow> \<not> a \<and> b \<and> t) \<and> uinv l a b t s)"
  by (simp add: owner_inv_def)

lemma owner_inv_mono:
  assumes "owner_inv s"
    and "cpc s' = cpc s" "cres s' = cres s"
    and "terminate s' = terminate s" "allowNewTasks s' = allowNewTasks s"
    and "tasks s = [] \<Longrightarrow> tasks s' = []"
    and "length (workers s') = length (workers s)"
    and "\<And>j. j < length (workers s) \<Longrightarrow> workers s ! j = Joined \<Longrightarrow> workers s' ! j = Joined"
  shows "owner_inv s'"
proof (cases "cpc s")
  case Idle
  then have c': "cpc s' = Idle" using assms(2) by simp
  from assms(1) Idle
  have r: "\<And>a b. cres s = Some (WaitUntilComplete a b True, Returned) \<Longrightarrow> retired s"
    and o: "\<And>a b. cres s = Some (WaitUntilComplete a b False, Returned) \<Longrightarrow> allowNewTasks s"
    by (simp_all add: owner_inv_Idle)
  show ?thesis
    unfolding owner_inv_Idle [OF c']
  proof (intro conjI allI impI)
    fix a b assume "cres s' = Some (WaitUntilComplete a b True, Returned)"
    with assms(3) have "cres s = Some (WaitUntilComplete a b True, Returned)" by simp
    then have "retired s" by (rule r)
    then show "retired s'" by (rule retired_mono) (fact assms)+
  next
    fix a b assume "cres s' = Some (WaitUntilComplete a b False, Returned)"
    with assms(3) have "cres s = Some (WaitUntilComplete a b False, Returned)" by simp
    then have "allowNewTasks s" by (rule o)
    with assms(5) show "allowNewTasks s'" by simp
  qed
next
  case Destroyed
  then have c': "cpc s' = Destroyed" using assms(2) by simp
  from assms(1) Destroyed have r: "retired s" and c: "cres s = Some (Destroy, Returned)"
    by (simp_all add: owner_inv_Destroyed)
  from r have "retired s'" by (rule retired_mono) (fact assms)+
  with c assms(3) show ?thesis by (simp add: owner_inv_Destroyed [OF c'])
next
  case (A l f)
  with assms(2) show ?thesis by (simp add: owner_inv_A)
next
  case (U l fr)
  obtain a b t d where fr: "fr = (a, b, t, d)" by (cases fr)
  with U have c: "cpc s = U l (a, b, t, d)" by simp
  then have c': "cpc s' = U l (a, b, t, d)" using assms(2) by simp
  from assms(1) have d: "d \<longrightarrow> \<not> a \<and> b \<and> t" and u: "uinv l a b t s"
    by (simp_all add: owner_inv_U [OF c])
  from u have "uinv l a b t s'" by (rule uinv_mono) (fact assms)+
  with d show ?thesis by (simp add: owner_inv_U [OF c'])
qed

lemma owner_step: "step e s = Inr s' \<Longrightarrow> owner_inv s \<Longrightarrow> owner_inv s'"
proof (induction rule: step_cases)
  case stutter then show ?case by simp
next
  case (call c) then show ?case by (cases c) (simp_all add: owner_inv_def enter_def)
next
  case (add k l f) then show ?case
    by (cases l) (auto simp: owner_inv_def dest!: notify_one_cases split: option.splits if_splits)
next
  case (wait l fr)
  obtain a b t d where fr: "fr = (a, b, t, d)" by (cases fr)
  with wait show ?case
    by (cases l) (auto simp: owner_inv_def retired_def call_of_def nth_list_update less_Suc_eq split: wpc.splits)
next
  case (worker i)
  from worker_frame [OF worker(1,2)] worker(3) show ?case
    by (intro owner_inv_mono [of s s']) auto
next
  case (spurious i) then show ?case
    by (intro owner_inv_mono [of s s']) (auto simp: nth_list_update)
qed

subsection \<open>The states an interleaving reaches from a new pool\<close>

lemma held_replicate [simp]: "concat (map held_of (replicate n L193)) = []"
  by (induction n) auto

lemma init_shape: "shape n (new_pool n lg)"
  by (simp add: shape_def new_pool_def)

lemma init_fifo: "fifo_inv (new_pool n lg)"
  by (simp add: fifo_inv_def new_pool_def)

lemma init_exec: "exec_inv (new_pool n lg)"
  by (auto simp: exec_inv_def held_def new_pool_def)

lemma init_busy: "busy_inv (new_pool n lg)"
  by (simp add: busy_inv_def new_pool_def)

lemma init_owner: "owner_inv (new_pool n lg)"
  by (simp add: owner_inv_def new_pool_def)

lemma reach_shape: "run es (new_pool n lg) = Inr s \<Longrightarrow> shape n s"
  by (erule run_invariant [where P = "shape n"]) (auto intro: init_shape shape_step)

lemma reach_fifo: "run es (new_pool n lg) = Inr s \<Longrightarrow> fifo_inv s"
  by (erule run_invariant [where P = fifo_inv]) (auto intro: init_fifo fifo_step)

lemma reach_exec: "run es (new_pool n lg) = Inr s \<Longrightarrow> exec_inv s"
  by (erule run_invariant [where P = exec_inv]) (auto intro: init_exec exec_step)

lemma reach_busy: "run es (new_pool n lg) = Inr s \<Longrightarrow> busy_inv s"
  by (erule run_invariant [where P = busy_inv]) (auto intro: init_busy busy_step)

lemma reach_owner: "run es (new_pool n lg) = Inr s \<Longrightarrow> owner_inv s"
  by (erule run_invariant [where P = owner_inv]) (auto intro: init_owner owner_step)

lemma init_mutex: "mutex_inv (new_pool n lg)"
  by (simp add: mutex_inv_def new_pool_def)

lemma reach_mutex: "run es (new_pool n lg) = Inr s \<Longrightarrow> mutex_inv s"
  by (erule run_invariant [where P = mutex_inv]) (auto intro: init_mutex mutex_step)

lemma all_joined_replicate:
  "shape n s \<Longrightarrow> retired s \<Longrightarrow> workers s = replicate n Joined"
  by (auto simp: shape_def retired_def intro: nth_equalityI)

lemma held_joined [simp]: "concat (map held_of (replicate n Joined)) = []"
  by (induction n) auto

subsection \<open>A retired pool stays closed\<close>

lemma notify_all_joined:
  "\<forall>i<length ws. ws ! i = Joined \<Longrightarrow> map (\<lambda>l. if l = Waiting then Woken else l) ws = ws"
  by (rule nth_equalityI) auto

lemma closed_step:
  assumes "closed_inv s" and "\<not> reopening e"
  shows "\<exists>s'. step e s = Inr s' \<and> closed_inv s' \<and> pushed s' = pushed s \<and> workers s' = workers s"
proof (cases e)
  case (Call c)
  with assms show ?thesis
    by (cases c) (auto simp: closed_inv_def retired_def enter_def)
next
  case (Client k)
  from assms(1) have r: "retired s" and c: "closed_at (cpc s)" by (simp_all add: closed_inv_def)
  show ?thesis
  proof (cases "cpc s")
    case Idle with Client assms(1) show ?thesis by simp
  next
    case Destroyed with Client assms(1) show ?thesis by simp
  next
    case (A l f)
    with c have "l = A103" by simp
    with A Client r show ?thesis by (simp add: closed_inv_def retired_def)
  next
    case (U l fr)
    obtain a b t d where fr: "fr = (a, b, t, d)" by (cases fr)
    from r have n: "map (\<lambda>l. if l = Waiting then Woken else l) (workers s) = workers s"
      by (simp add: retired_def notify_all_joined)
    from U fr c Client r n show ?thesis
      by (cases l) (auto simp: closed_inv_def retired_def call_of_def)
  qed
next
  case (Worker i)
  with assms(1) show ?thesis by (auto simp: closed_inv_def retired_def)
next
  case (Spurious i)
  with assms(1) show ?thesis by (auto simp: closed_inv_def retired_def)
qed

lemma closed_run:
  assumes "closed_inv s" and "list_all (\<lambda>e. \<not> reopening e) es"
  shows "\<exists>s'. run es s = Inr s' \<and> closed_inv s' \<and> pushed s' = pushed s \<and> workers s' = workers s"
  using assms
proof (induction es arbitrary: s)
  case Nil then show ?case by simp
next
  case (Cons e es)
  from Cons.prems obtain s1 where s1: "step e s = Inr s1" "closed_inv s1"
      "pushed s1 = pushed s" "workers s1 = workers s"
    using closed_step [of s e] by auto
  from Cons.IH [OF s1(2)] Cons.prems(2) obtain s' where "run es s1 = Inr s'" "closed_inv s'"
      "pushed s' = pushed s1" "workers s' = workers s1"
    by auto
  with s1 show ?case by simp
qed

subsection \<open>What a worker takes, it runs\<close>

lemma step_workers_length:
  assumes "step e s = Inr s'" shows "length (workers s') = length (workers s)"
  using assms
proof (induction rule: step_cases)
  case (add k l f) then show ?case
    by (cases l) (auto dest!: notify_one_cases split: option.splits if_splits)
next
  case (wait l fr) then show ?case
    by (cases l; cases fr) (auto split: wpc.splits)
next
  case (worker i)
  from worker(1,2) show ?case by (cases rule: wstep_cases) auto
qed auto

text \<open>
  The events of other threads change neither what a worker holds nor, while it holds a task,
  where it is.
\<close>

lemma other_keeps_held:
  assumes "step e s = Inr s'" and "e \<noteq> Worker i" and "i < length (workers s)"
  shows "held_of (workers s' ! i) = held_of (workers s ! i)
     \<and> (held_of (workers s ! i) \<noteq> [] \<longrightarrow> workers s' ! i = workers s ! i)"
proof (cases e)
  case (Call c)
  with assms show ?thesis by (auto split: if_splits)
next
  case (Client k)
  show ?thesis
  proof (cases "cpc s")
    case (A l f)
    with Client assms show ?thesis
      by (cases l) (auto simp: nth_list_update dest!: notify_one_cases split: option.splits if_splits)
  next
    case (U l fr)
    obtain a b t d where "fr = (a, b, t, d)" by (cases fr)
    with U Client assms show ?thesis
      by (cases l) (auto simp: nth_list_update split: wpc.splits)
  qed (use Client assms in auto)
next
  case (Worker j)
  with assms have j: "j \<noteq> i" by simp
  show ?thesis
  proof (cases "j < length (workers s)")
    case True
    with Worker assms(1) have "wstep j (workers s ! j) s = Inr s'" by simp
    with True have "workers s' ! i = workers s ! i"
      by (cases rule: wstep_cases) (use j True in \<open>auto simp: nth_list_update\<close>)
    then show ?thesis by simp
  next
    case False
    with Worker assms(1) show ?thesis by simp
  qed
next
  case (Spurious j)
  with assms show ?thesis by (auto simp: nth_list_update split: if_splits)
qed

text \<open>
  Along every run, what a worker held and then took is what it ran and then holds.
\<close>

lemma took_ran:
  assumes "run es s = Inr s'" and "i < length (workers s)"
  shows "held_of (workers s ! i) @ took i es s = ran i es s @ held_of (workers s' ! i)"
  using assms
proof (induction es arbitrary: s)
  case Nil then show ?case by simp
next
  case (Cons e es)
  from Cons.prems(1) obtain s1 where s1: "step e s = Inr s1" "run es s1 = Inr s'"
    by (auto split: sum.splits)
  from s1(1) Cons.prems(2) have l: "i < length (workers s1)" by (simp add: step_workers_length)
  note IH = Cons.IH [OF s1(2) l]
  note i = Cons.prems(2)
  show ?case
  proof (cases "e = Worker i")
    case True
    with s1(1) i have w: "wstep i (workers s ! i) s = Inr s1" by simp
    from i w IH True show ?thesis
      by (cases "workers s ! i")
        (auto simp: nth_list_update split: if_splits list.splits behaviour.splits)
  next
    case False
    from other_keeps_held [OF s1(1) False i] IH s1(1) False
    show ?thesis by simp
  qed
qed

text \<open>
  A worker that holds a task has run it once it has made its remaining steps, whatever the
  other threads do in between.
\<close>

lemma held_task_is_run:
  assumes "run es s = Inr s'" and "i < length (workers s)"
    and "held_of (workers s ! i) = [g]"
    and "remaining (workers s ! i) \<le> count_list es (Worker i)"
  shows "ran i es s \<noteq> [] \<and> hd (ran i es s) = g"
  using assms
proof (induction es arbitrary: s)
  case Nil then show ?case by (cases "workers s ! i") simp_all
next
  case (Cons e es)
  from Cons.prems(1) obtain s1 where s1: "step e s = Inr s1" "run es s1 = Inr s'"
    by (auto split: sum.splits)
  from s1(1) Cons.prems(2) have l: "i < length (workers s1)" by (simp add: step_workers_length)
  note i = Cons.prems(2)
  show ?case
  proof (cases "e = Worker i")
    case True
    with s1(1) i have w: "wstep i (workers s ! i) s = Inr s1" by simp
    show ?thesis
    proof (cases "workers s ! i")
      case (L206 f)
      with Cons.prems i w True have "ran i es s1 \<noteq> [] \<and> hd (ran i es s1) = g"
        by (intro Cons.IH [OF s1(2) l]) (auto simp: nth_list_update)
      with L206 True i w show ?thesis by simp
    next
      case (L209 f)
      with Cons.prems i w True have "ran i es s1 \<noteq> [] \<and> hd (ran i es s1) = g"
        by (intro Cons.IH [OF s1(2) l]) (auto simp: nth_list_update)
      with L209 True i w show ?thesis by simp
    next
      case (L210 f)
      with Cons.prems True i w show ?thesis by (simp split: behaviour.splits)
    qed (use Cons.prems(3) in simp_all)
  next
    case False
    from Cons.prems(3) have ne: "held_of (workers s ! i) \<noteq> []" by simp
    from other_keeps_held [OF s1(1) False i] ne have k: "workers s1 ! i = workers s ! i" by simp
    with Cons.prems False have "ran i es s1 \<noteq> [] \<and> hd (ran i es s1) = g"
      by (intro Cons.IH [OF s1(2) l]) auto
    with s1(1) False show ?thesis by simp
  qed
qed

lemma run_workers_length:
  "run es s = Inr s' \<Longrightarrow> length (workers s') = length (workers s)"
proof (induction es arbitrary: s)
  case Nil then show ?case by simp
next
  case (Cons e es) then show ?case
    by (auto split: sum.splits dest: step_workers_length)
qed

subsection \<open>The hung destructor\<close>

lemma hung_step: "\<not> spurious e \<Longrightarrow> step e hung = Inr hung"
  by (cases e) (simp_all add: hung_def)

lemma hung_forever: "list_all (\<lambda>e. \<not> spurious e) es \<Longrightarrow> run es hung = Inr hung"
  by (induction es) (simp_all add: hung_step)

subsection \<open>Runs of the schedules\<close>

lemma five_run:
  "run five (new_pool 1 None) =
     Inr \<lparr>log = None, workers = [L193], working = [True], tasks = [], mt = None,
        allowNewTasks = True, terminate = False, cpc = Idle,
        cres = Some (AddTask (Task 5 Returns), Returned),
        pushed = [Task 1 Returns, Task 2 Returns, Task 3 Returns, Task 4 Returns, Task 5 Returns],
        popped = [Task 1 Returns, Task 2 Returns, Task 3 Returns, Task 4 Returns, Task 5 Returns],
        discarded = [],
        executed = [Task 1 Returns, Task 2 Returns, Task 3 Returns, Task 4 Returns, Task 5 Returns]\<rparr>"
  unfolding five_def submit_def worker0_def by code_simp

lemma one_running_run:
  "run one_running (new_pool 1 None) =
     Inr \<lparr>log = None, workers = [L210 (Task 1 Returns)], working = [True],
        tasks = [], mt = None, allowNewTasks = True, terminate = False,
        cpc = Idle, cres = Some (AddTask (Task 1 Returns), Returned),
        pushed = [Task 1 Returns], popped = [Task 1 Returns],
        discarded = [], executed = []\<rparr>"
  unfolding one_running_def submit_def worker0_def by code_simp

lemma faulty_then_normal_run:
  "run faulty_then_normal (new_pool 1 (Some [])) = Inr faulty_running"
  unfolding faulty_then_normal_def submit_def worker0_def faulty_running_def by code_simp

lemma destroy_pending_run:
  "run destroy_pending (new_pool 1 None) =
     Inr \<lparr>log = None, workers = [Joined], working = [False], tasks = [],
        mt = None, allowNewTasks = False, terminate = True, cpc = Destroyed,
        cres = Some (Destroy, Returned), pushed = [Task 1 Returns],
        popped = [], discarded = [Task 1 Returns], executed = []\<rparr>"
  unfolding destroy_pending_def submit_def worker0_def client_def by code_simp

lemma terminate_idle_run:
  "run terminate_idle (new_pool 1 (Some [])) =
     Inr \<lparr>log = Some [], workers = [Joined], working = [False], tasks = [],
        mt = None, allowNewTasks = False, terminate = True, cpc = Idle,
        cres = Some (WaitUntilComplete False False True, Returned),
        pushed = [], popped = [], discarded = [], executed = []\<rparr>"
  unfolding terminate_idle_def submit_def worker0_def client_def by code_simp

section \<open>The claims\<close>

text \<open>
  C1. A call \<open>waitUntilComplete(allowNewTasks, abandonTasks, terminatePool)\<close> with
  \<open>allowNewTasks\<close> and one of the other two set throws at its first statement (line 129):
  the caller gets the usage fault, and the pool is as it was: the intake flag, the
  termination flag, the queue and every other member are unchanged. Only the record of the
  owner's last call differs.
\<close>

theorem usage_fault_no_mutation:
  assumes "a \<and> (b \<or> t)" and "cpc s = Idle"
  shows "run [Call (WaitUntilComplete a b t), Client k] s =
           Inr (s\<lparr>cres := Some (WaitUntilComplete a b t, UsageFault)\<rparr>)"
  using assms by (auto simp: enter_def throw_def call_of_def)

theorem usage_fault_no_mutation_witness:
  "run [Call (WaitUntilComplete True False True), Client 0] (new_pool 2 None) =
     Inr ((new_pool 2 None)\<lparr>cres := Some (WaitUntilComplete True False True, UsageFault)\<rparr>)"
  using usage_fault_no_mutation [of True False True "new_pool 2 None" 0]
  by (simp add: new_pool_def)

text \<open>
  C2. The queue is first in, first out. After any interleaving on a new pool, the tasks
  removed from the queue are, in order, a subsequence of the tasks pushed; as long as
  nothing was abandoned, the tasks pushed are exactly the tasks removed followed by the
  queue. With one worker the tasks removed are the tasks run, in order, followed by the
  one the worker holds, if any; so with one worker and nothing abandoned the tasks run are
  a prefix of the tasks pushed, and five tasks pushed as T1 to T5 are run as T1 to T5.
\<close>

theorem fifo_order:
  assumes "run es (new_pool n lg) = Inr s"
  shows "subseq (popped s) (pushed s)
     \<and> (discarded s = [] \<longrightarrow> pushed s = popped s @ tasks s)
     \<and> (n = 1 \<longrightarrow> popped s = executed s @ held_of (workers s ! 0))
     \<and> (n = 1 \<longrightarrow> discarded s = [] \<longrightarrow>
          pushed s = executed s @ held_of (workers s ! 0) @ tasks s)"
proof -
  from assms have f: "fifo_inv s" and e: "exec_inv s" and sh: "shape n s"
    by (rule reach_fifo reach_exec reach_shape)+
  from f have "subseq (popped s) (pushed s)"
    by (auto simp: fifo_inv_def dest: subseq_front)
  moreover from f have "discarded s = [] \<longrightarrow> pushed s = popped s @ tasks s"
    by (simp add: fifo_inv_def)
  moreover from e sh have "n = 1 \<longrightarrow> popped s = executed s @ held_of (workers s ! 0)"
    by (simp add: exec_inv_def shape_def)
  ultimately show ?thesis by simp
qed

theorem fifo_order_witness:
  "run five (new_pool 1 None) =
     Inr \<lparr>log = None, workers = [L193], working = [True], tasks = [], mt = None,
        allowNewTasks = True, terminate = False, cpc = Idle,
        cres = Some (AddTask (Task 5 Returns), Returned),
        pushed = [Task 1 Returns, Task 2 Returns, Task 3 Returns, Task 4 Returns, Task 5 Returns],
        popped = [Task 1 Returns, Task 2 Returns, Task 3 Returns, Task 4 Returns, Task 5 Returns],
        discarded = [],
        executed = [Task 1 Returns, Task 2 Returns, Task 3 Returns, Task 4 Returns, Task 5 Returns]\<rparr>"
  using fifo_order [OF five_run] five_run by simp

text \<open>
  C3, as amended. Let a worker be inside a task whose body throws an exception that the
  handler of line 211 matches. The worker's step out of the task does not fail: the handler
  writes the message with the worker's number and the \<open>what()\<close> text to the log stream (if
  the pool has one), nothing is thrown on, and the worker is back at the head of its loop.
  From there on, in every interleaving (that meets no exception the handler does not match
  and no \<open>front()\<close> on an empty queue): the tasks the worker takes from the queue are, in
  order, the tasks it runs, followed by the one it holds, if any; and a task it holds has
  been run as soon as the worker has made the at most three steps from line 206 to the end
  of line 210, whatever the other threads do in between.
\<close>

theorem std_exception_contained:
  assumes "i < length (workers s)" and "workers s ! i = L210 f" and "body f = ThrowsStd what"
  shows "\<exists>post. step (Worker i) s = Inr post
     \<and> post = at_w i L193 (logMessage (task_msg i what) (s\<lparr>executed := executed s @ [f]\<rparr>))
     \<and> (\<forall>es s'. run es post = Inr s' \<longrightarrow>
           took i es post = ran i es post @ held_of (workers s' ! i)
           \<and> (\<forall>g es2 s3. held_of (workers s' ! i) = [g] \<longrightarrow> run es2 s' = Inr s3 \<longrightarrow>
                 remaining (workers s' ! i) \<le> count_list es2 (Worker i) \<longrightarrow>
                 ran i es2 s' \<noteq> [] \<and> hd (ran i es2 s') = g))"
proof -
  let ?post = "at_w i L193 (logMessage (task_msg i what) (s\<lparr>executed := executed s @ [f]\<rparr>))"
  from assms have st: "step (Worker i) s = Inr ?post" by simp
  from assms(1) have i: "i < length (workers ?post)" by simp
  then have h: "held_of (workers ?post ! i) = []" by simp
  have "took i es ?post = ran i es ?post @ held_of (workers s' ! i)
      \<and> (\<forall>g es2 s3. held_of (workers s' ! i) = [g] \<longrightarrow> run es2 s' = Inr s3 \<longrightarrow>
            remaining (workers s' ! i) \<le> count_list es2 (Worker i) \<longrightarrow>
            ran i es2 s' \<noteq> [] \<and> hd (ran i es2 s') = g)"
    if r: "run es ?post = Inr s'" for es s'
  proof -
    from took_ran [OF r i] h
    have 1: "took i es ?post = ran i es ?post @ held_of (workers s' ! i)" by simp
    from run_workers_length [OF r] i have i': "i < length (workers s')" by simp
    have 2: "ran i es2 s' \<noteq> [] \<and> hd (ran i es2 s') = g"
      if "held_of (workers s' ! i) = [g]" "run es2 s' = Inr s3"
        "remaining (workers s' ! i) \<le> count_list es2 (Worker i)" for g es2 s3
      using held_task_is_run [OF that(2) i' that(1) that(3)] .
    from 1 2 show ?thesis by blast
  qed
  with st show ?thesis by blast
qed

theorem std_exception_contained_witness:
  "run faulty_then_normal (new_pool 1 (Some [])) = Inr faulty_running
   \<and> step (Worker 0) faulty_running = Inr faulty_caught
   \<and> took 0 [Worker 0, Worker 0, Worker 0, Worker 0] faulty_caught = [Task 2 Returns]
   \<and> ran 0 [Worker 0, Worker 0, Worker 0, Worker 0, Worker 0, Worker 0, Worker 0] faulty_caught
       = [Task 2 Returns]"
proof -
  have c: "at_w 0 L193 (logMessage (task_msg 0 ''boom'')
             (faulty_running\<lparr>executed := executed faulty_running @ [Task 1 (ThrowsStd ''boom'')]\<rparr>))
           = faulty_caught"
    by (simp add: faulty_running_def faulty_caught_def logMessage_def at_w_def)
  from std_exception_contained [of 0 faulty_running "Task 1 (ThrowsStd ''boom'')" "''boom''"]
  have "step (Worker 0) faulty_running = Inr faulty_caught"
    unfolding c by (simp add: faulty_running_def)
  moreover have "took 0 [Worker 0, Worker 0, Worker 0, Worker 0] faulty_caught = [Task 2 Returns]"
    by (simp add: faulty_caught_def)
  moreover have
    "ran 0 [Worker 0, Worker 0, Worker 0, Worker 0, Worker 0, Worker 0, Worker 0] faulty_caught
       = [Task 2 Returns]"
    by (simp add: faulty_caught_def)
  ultimately show ?thesis using faulty_then_normal_run by simp
qed

text \<open>
  C3 as stated fails for a task that throws what the handler of line 211 does not match
  (\<open>throw 42\<close>, say): nothing catches it, and it leaves \<open>operator()\<close>, the thread's function.
\<close>

theorem other_exception_counterexample:
  "run (submit (Task 1 ThrowsOther) @ worker0 7) (new_pool 1 (Some [])) =
     Inl (UncaughtException 0)"
  unfolding submit_def worker0_def by code_simp

text \<open>
  C4, as amended. When a call of \<open>waitUntilComplete\<close> with \<open>terminatePool\<close> has returned,
  termination is requested and every worker has left its loop and been joined. From then
  on, through any further events other than the start of a call of \<open>waitUntilComplete\<close>
  with \<open>terminatePool = false\<close>, nothing fails, termination stays requested, the intake
  stays closed, the workers stay joined, the queue stays empty and nothing is pushed; and
  whenever the owner is idle, \<open>addTask\<close> ends at line 106: the message is written to the
  log and the call returns with the pool otherwise as it was.
\<close>

theorem terminated_pool_stays_closed:
  assumes "run es (new_pool n lg) = Inr s" and "cpc s = Idle"
    and "cres s = Some (WaitUntilComplete a b True, Returned)"
    and "list_all (\<lambda>e. \<not> reopening e) es'"
  shows "terminate s \<and> workers s = replicate n Joined
     \<and> (\<exists>s'. run es' s = Inr s'
           \<and> terminate s' \<and> \<not> allowNewTasks s' \<and> tasks s' = []
           \<and> pushed s' = pushed s \<and> workers s' = replicate n Joined
           \<and> (cpc s' = Idle \<longrightarrow>
                (\<forall>f k. run [Call (AddTask f), Client k] s' =
                         Inr (ret (AddTask f) (logMessage stopped_msg s')))))"
proof -
  from assms(1) have o: "owner_inv s" and sh: "shape n s"
    by (rule reach_owner reach_shape)+
  from o assms(2,3) have r: "retired s" by (simp add: owner_inv_Idle)
  from sh r have w: "workers s = replicate n Joined" by (rule all_joined_replicate)
  from r assms(2) have "closed_inv s" by (simp add: closed_inv_def)
  from closed_run [OF this assms(4)] obtain s' where s': "run es' s = Inr s'" "closed_inv s'"
      "pushed s' = pushed s" "workers s' = workers s"
    by auto
  from s'(2) have r': "retired s'" by (simp add: closed_inv_def)
  have "run [Call (AddTask f), Client k] s' = Inr (ret (AddTask f) (logMessage stopped_msg s'))"
    if "cpc s' = Idle" for f k
    using that r'
    by (simp add: enter_def retired_def ret_def logMessage_def split: option.splits)
  with r r' w s' show ?thesis by (auto simp: retired_def)
qed

theorem terminated_pool_stays_closed_witness:
  "run terminate_idle (new_pool 1 (Some [])) =
     Inr \<lparr>log = Some [], workers = [Joined], working = [False], tasks = [],
        mt = None, allowNewTasks = False, terminate = True, cpc = Idle,
        cres = Some (WaitUntilComplete False False True, Returned),
        pushed = [], popped = [], discarded = [], executed = []\<rparr>
   \<and> run (terminate_idle @ [Call (AddTask (Task 1 Returns)), Client 0]) (new_pool 1 (Some [])) =
     Inr \<lparr>log = Some [stopped_msg], workers = [Joined], working = [False], tasks = [],
        mt = None, allowNewTasks = False, terminate = True, cpc = Idle,
        cres = Some (AddTask (Task 1 Returns), Returned),
        pushed = [], popped = [], discarded = [], executed = []\<rparr>"
  using terminated_pool_stays_closed
      [OF terminate_idle_run, of False False "[Call (AddTask (Task 1 Returns)), Client 0]"]
    terminate_idle_run
  by (simp add: run_append ret_def logMessage_def enter_def)

text \<open>
  C4 as stated fails: the pool is not closed for good. After the terminating call, a call
  \<open>waitUntilComplete(false, false, false)\<close> finds the queue empty and no flag set, and opens
  the intake at line 169; the next \<open>addTask\<close> pushes its task, with no worker left.
\<close>

theorem reopened_after_terminate_counterexample:
  "run (terminate_idle @ [Call (WaitUntilComplete False False False)] @ client 10
          @ submit (Task 1 Returns)) (new_pool 1 (Some [])) =
     Inr \<lparr>log = Some [], workers = [Joined], working = [False],
        tasks = [Task 1 Returns], mt = None, allowNewTasks = True,
        terminate = True, cpc = Idle,
        cres = Some (AddTask (Task 1 Returns), Returned),
        pushed = [Task 1 Returns], popped = [], discarded = [],
        executed = []\<rparr>"
  unfolding terminate_idle_def submit_def worker0_def client_def by code_simp

text \<open>
  C5 fails on the code. In the schedule \<open>abandon_race\<close> the one worker is notified of a
  task, the owner empties the queue before the worker has the mutex again, and the worker,
  back from \<open>cv_.wait\<close> with \<open>terminate_\<close> false, reaches \<open>tasks_.front()\<close> at line 204 on
  an empty queue.
\<close>

theorem empty_queue_front_reached:
  "run abandon_race (new_pool 1 None) = Inl (EmptyQueueFront 0)"
  unfolding abandon_race_def submit_def worker0_def client_def by code_simp

text \<open>
  C6 fails on the code. In the schedule \<open>destroy_fresh\<close> a pool of one worker is destroyed
  before the worker has reached \<open>cv_.wait\<close>: the destructor sets \<open>terminate_\<close> and calls
  \<open>cv_.notify_all()\<close> while nobody waits, and then blocks in \<open>join\<close> (line 161); the worker
  finds the queue empty at line 195 and waits, without a look at \<open>terminate_\<close>, for a
  notification that has already been given. The destructor does not return and the worker
  is not terminated.
\<close>

theorem destructor_hangs_on_fresh_pool:
  "run destroy_fresh (new_pool 1 None) = Inr hung"
  unfolding destroy_fresh_def client_def worker0_def hung_def by code_simp

text \<open>
  From \<open>hung\<close> nothing moves any more, short of a spurious wake-up of the worker: every
  other event leaves the state as it is (lemma \<open>hung_forever\<close> above). The destructor can
  also run into the defect of C5: in \<open>destroy_race\<close> it empties the queue under a notified
  worker, which then calls \<open>front()\<close> on the empty queue.
\<close>

lemma destructor_abandon_race:
  "run destroy_race (new_pool 1 None) = Inl (EmptyQueueFront 0)"
  unfolding destroy_race_def submit_def client_def worker0_def by code_simp

text \<open>
  What C6 says does hold of every state in which the destructor has returned: it returned
  normally, the intake is closed, termination is requested, the queue is empty, every worker
  has left its loop and been joined, and every task ever pushed was either run or dropped
  from the queue.
\<close>

lemma destructor_returned:
  assumes "run es (new_pool n lg) = Inr s" and "cpc s = Destroyed"
  shows "cres s = Some (Destroy, Returned)
     \<and> \<not> allowNewTasks s \<and> terminate s \<and> tasks s = []
     \<and> workers s = replicate n Joined
     \<and> mset (pushed s) = mset (executed s) + mset (discarded s)"
proof -
  from assms(1) have o: "owner_inv s" and f: "fifo_inv s" and e: "exec_inv s" and sh: "shape n s"
    by (rule reach_owner reach_fifo reach_exec reach_shape)+
  from o assms(2) have r: "retired s" and c: "cres s = Some (Destroy, Returned)"
    by (simp_all add: owner_inv_Destroyed)
  from sh r have w: "workers s = replicate n Joined" by (rule all_joined_replicate)
  with e have "mset (popped s) = mset (executed s)" by (simp add: exec_inv_def held_def)
  with f r have "mset (pushed s) = mset (executed s) + mset (discarded s)"
    by (simp add: fifo_inv_def retired_def)
  with r c w show ?thesis by (simp add: retired_def)
qed

text \<open>
  C7 fails on the code. In the schedule \<open>drain_race\<close> the call
  \<open>waitUntilComplete(false, false, false)\<close> returns, with the intake open again, while the
  task the worker took from the queue before the call has not been run: the worker is
  between lines 206 and 209, and its flag still reads false.
\<close>

theorem drain_returns_before_task_runs:
  "run drain_race (new_pool 1 None) =
     Inr \<lparr>log = None, workers = [L209 (Task 1 Returns)], working = [False],
        tasks = [], mt = None, allowNewTasks = True, terminate = False,
        cpc = Idle,
        cres = Some (WaitUntilComplete False False False, Returned),
        pushed = [Task 1 Returns], popped = [Task 1 Returns],
        discarded = [], executed = []\<rparr>"
  unfolding drain_race_def submit_def worker0_def client_def by code_simp

text \<open>
  The rest of C7 holds. The scan of line 165 moves on from a flag only when it reads false
  and ends only past the last flag; a call with \<open>terminatePool = false\<close> that has returned
  leaves the intake open, whatever \<open>allowNewTasks\<close> was; and \<open>addTask\<close> on an idle pool
  with the intake open and the mutex free pushes its task.
\<close>

lemma scan_passes_idle_flags:
  assumes "cpc s = U (U165 i) fr" and "step (Client k) s = Inr s'"
    and "cpc s' = U (U165 (Suc i)) fr"
  shows "i < length (working s) \<and> \<not> working s ! i"
  using assms by (auto split: if_splits)

lemma scan_ends_past_last_flag:
  assumes "cpc s = U (U165 i) fr" and "step (Client k) s = Inr s'" and "cpc s' = U U169 fr"
  shows "length (working s) \<le> i"
  using assms by (auto split: if_splits)

lemma drain_reopens_intake:
  assumes "run es (new_pool n lg) = Inr s" and "cpc s = Idle"
    and "cres s = Some (WaitUntilComplete a b False, Returned)"
  shows "allowNewTasks s"
  using reach_owner [OF assms(1)] assms(2,3) by (simp add: owner_inv_Idle)

lemma submit_accepted:
  assumes "cpc s = Idle" and "allowNewTasks s" and "mt s = None"
  shows "\<exists>s'. run (submit f) s = Inr s' \<and> tasks s' = tasks s @ [f] \<and> pushed s' = pushed s @ [f]"
  using assms
  by (simp add: submit_def enter_def notify_one_def)

text \<open>
  C8, as amended. After any interleaving on a new pool, a worker's flag is true while the
  worker is inside a task, and false while it is in \<open>cv_.wait\<close> (from line 197 until it has
  the mutex again). The flag is not cleared when the task ends: the step that ends a task
  leaves the worker at the head of its loop with the flag still true, and only line 196,
  reached when the worker finds the queue empty, clears it.
\<close>

theorem busy_flag:
  assumes "run es (new_pool n lg) = Inr s" and "i < n"
  shows "(\<forall>f. workers s ! i = L210 f \<longrightarrow> working s ! i)
     \<and> (workers s ! i \<in> {L197, Waiting, Woken} \<longrightarrow> \<not> working s ! i)
     \<and> (\<forall>f. workers s ! i = L210 f \<longrightarrow> body f \<noteq> ThrowsOther \<longrightarrow>
           (\<exists>s'. step (Worker i) s = Inr s' \<and> workers s' ! i = L193 \<and> working s' ! i))"
proof -
  from assms(1) have b: "busy_inv s" and sh: "shape n s"
    by (rule reach_busy reach_shape)+
  from sh assms(2) have i: "i < length (workers s)" "i < length (working s)"
    by (simp_all add: shape_def)
  from b i have 1: "\<forall>f. workers s ! i = L210 f \<longrightarrow> working s ! i"
    and 2: "workers s ! i \<in> {L197, Waiting, Woken} \<longrightarrow> \<not> working s ! i"
    by (simp_all add: busy_inv_def)
  have 3: "\<exists>s'. step (Worker i) s = Inr s' \<and> workers s' ! i = L193 \<and> working s' ! i"
    if "workers s ! i = L210 f" "body f \<noteq> ThrowsOther" for f
    using that 1 i by (cases "body f") simp_all
  from 1 2 3 show ?thesis by blast
qed

theorem busy_flag_witness:
  "run one_running (new_pool 1 None) =
     Inr \<lparr>log = None, workers = [L210 (Task 1 Returns)], working = [True],
        tasks = [], mt = None, allowNewTasks = True, terminate = False,
        cpc = Idle, cres = Some (AddTask (Task 1 Returns), Returned),
        pushed = [Task 1 Returns], popped = [Task 1 Returns],
        discarded = [], executed = []\<rparr>
   \<and> (\<exists>s'. run (one_running @ [Worker 0]) (new_pool 1 None) = Inr s'
          \<and> workers s' ! 0 = L193 \<and> working s' ! 0)"
  using busy_flag [OF one_running_run, of 0] one_running_run
  by (simp add: run_append)

text \<open>
  C8 as stated fails: in the schedule \<open>one_done\<close> the worker has finished its task and
  stands at the head of its loop, running nothing, and its flag is true.
\<close>

theorem busy_after_task_counterexample:
  "run one_done (new_pool 1 None) =
     Inr \<lparr>log = None, workers = [L193], working = [True], tasks = [], mt = None,
        allowNewTasks = True, terminate = False, cpc = Idle,
        cres = Some (AddTask (Task 1 Returns), Returned),
        pushed = [Task 1 Returns], popped = [Task 1 Returns],
        discarded = [], executed = [Task 1 Returns]\<rparr>"
  unfolding one_done_def submit_def worker0_def by code_simp



text \<open>
  C10, as amended. The constructor itself checks nothing about \<open>nThreads\<close>. For every count
  within the range of the loop's \<open>unsigned int\<close> counter for which the host lets both
  \<open>reserve\<close> calls succeed and that many threads be started, construction succeeds, and the
  pool starts with exactly that many busy flags, all false, that many workers, the intake
  open and termination not requested. For \<open>nThreads = 0\<close> this is so on every host: the
  pool with no worker is accepted.
\<close>

theorem construction_succeeds:
  assumes "unat n \<le> max_size_workers h" and "unat n \<le> max_size_working h"
    and "0 < unat n \<longrightarrow> storage_workers h (unat n) \<and> storage_working h (unat n)"
    and "unat n \<le> threads_left h" and "unat n < 2 ^ 32"
  shows "ThreadPool h n lg = Inr (new_pool (unat n) lg)
     \<and> working (new_pool (unat n) lg) = replicate (unat n) False
     \<and> length (workers (new_pool (unat n) lg)) = unat n
     \<and> allowNewTasks (new_pool (unat n) lg) \<and> \<not> terminate (new_pool (unat n) lg)
     \<and> ThreadPool h' 0 lg = Inr (new_pool 0 lg)
     \<and> workers (new_pool 0 lg) = [] \<and> working (new_pool 0 lg) = []"
proof -
  have "ThreadPool h n lg = Inr (new_pool (unat n) lg)"
    using assms ThreadPool_loop_completes [of "new_pool 0 lg" 0 n "threads_left h" h]
    by (auto simp: ThreadPool_def reserve_def new_pool_def)
  moreover have "ThreadPool h' 0 lg = Inr (new_pool 0 lg)"
    by (cases "threads_left h'") (simp_all add: ThreadPool_def reserve_def)
  ultimately show ?thesis by (simp add: new_pool_def)
qed

theorem construction_succeeds_witness:
  "ThreadPool generous 4 None =
     Inr \<lparr>log = None, workers = [L193, L193, L193, L193],
        working = [False, False, False, False], tasks = [],
        mt = None, allowNewTasks = True, terminate = False, cpc = Idle, cres = None,
        pushed = [], popped = [], discarded = [], executed = []\<rparr>
   \<and> ThreadPool (generous\<lparr>threads_left := 0\<rparr>) 0 None =
     Inr \<lparr>log = None, workers = [], working = [], tasks = [],
        mt = None, allowNewTasks = True, terminate = False, cpc = Idle, cres = None,
        pushed = [], popped = [], discarded = [], executed = []\<rparr>"
proof -
  have p4: "new_pool 4 None =
     \<lparr>log = None, workers = [L193, L193, L193, L193],
        working = [False, False, False, False], tasks = [],
        mt = None, allowNewTasks = True, terminate = False, cpc = Idle, cres = None,
        pushed = [], popped = [], discarded = [], executed = []\<rparr>"
    by (simp add: new_pool_def numeral_eq_Suc)
  have p0: "new_pool 0 None =
     \<lparr>log = None, workers = [], working = [], tasks = [],
        mt = None, allowNewTasks = True, terminate = False, cpc = Idle, cres = None,
        pushed = [], popped = [], discarded = [], executed = []\<rparr>"
    by (simp add: new_pool_def)
  have "ThreadPool generous 4 None = Inr (new_pool (unat (4 :: 64 word)) None)
      \<and> ThreadPool (generous\<lparr>threads_left := 0\<rparr>) 0 None = Inr (new_pool 0 None)"
    using construction_succeeds
      [where n = 4 and h = generous and h' = "generous\<lparr>threads_left := 0\<rparr>" and lg = None]
    by (simp add: generous_def)
  then show ?thesis by (simp add: p4 p0)
qed

text \<open>
  C10 as stated fails: construction does not succeed for every count. For
  \<open>nThreads = SIZE_MAX\<close> the \<open>reserve\<close> of line 87 throws \<open>std::length_error\<close>, on the most
  generous host.
\<close>

theorem construction_length_error_counterexample:
  "ThreadPool generous (- 1) None = Inl LengthError"
  by (simp add: ThreadPool_def reserve_def generous_def unsigned_minus_1_eq_mask
      mask_eq_exp_minus_1)

text \<open>
  Construction fails as well when the host cannot start the threads: with one thread left,
  the second \<open>std::thread\<close> of a pool of two throws, and the first, joinable, is destroyed.
  And it never succeeds for a count beyond the counter's range.
\<close>

lemma construction_thread_failure:
  "ThreadPool (generous\<lparr>threads_left := 1\<rparr>) 2 None = Inl StdTerminate"
  by (simp add: ThreadPool_def reserve_def generous_def unwind_def new_pool_def ucast_less)

lemma construction_never_beyond_counter:
  "2 ^ 32 \<le> unat n \<Longrightarrow> ThreadPool h n lg \<noteq> Inr p"
  using ThreadPool_returns [of h n lg p] by auto

end
